theory Spec2Isabelle
  imports Complex_Main "HOL-Library.Sublist"
begin

section \<open>Bytes, decimal numerals and the frame header\<close>

text \<open>
  A Node \<open>Buffer\<close> is a list of bytes; Isabelle's \<open>char\<close> is a byte, so a buffer is a
  \<open>string\<close>. \<open>Buffer.slice(a, b)\<close> is \<open>take (b - a) (drop a buf)\<close> and
  \<open>Buffer.slice(a)\<close> is \<open>drop a buf\<close>.
\<close>

definition sep :: string where
  \<comment> \<open>\<open>const sep = '\r\n\r\n'\<close>\<close>
  "sep = [CHR 0x0D, CHR 0x0A, CHR 0x0D, CHR 0x0A]"

fun indexOf :: "string \<Rightarrow> string \<Rightarrow> nat option" where
  \<comment> \<open>\<open>buf.indexOf(pat)\<close>: the first position where \<open>pat\<close> starts; \<open>None\<close> is \<open>-1\<close>\<close>
  "indexOf [] pat = (if pat = [] then Some 0 else None)"
| "indexOf (c # cs) pat =
     (if prefix pat (c # cs) then Some 0 else map_option Suc (indexOf cs pat))"

definition is_digit :: "char \<Rightarrow> bool" where
  \<comment> \<open>the regular expression class \<open>\d\<close>, which is \<open>[0-9]\<close> in JavaScript\<close>
  "is_digit c = (c \<in> set ''0123456789'')"

definition digit_val :: "char \<Rightarrow> nat" where
  "digit_val c = (of_char c :: nat) - 48"

definition digit_char :: "nat \<Rightarrow> char" where
  "digit_char d = ''0123456789'' ! d"

fun decimal :: "nat \<Rightarrow> string" where
  \<comment> \<open>the template literal \<open>`${n}`\<close> of a non-negative integer\<close>
  "decimal n = (if n < 10 then [digit_char n] else decimal (n div 10) @ [digit_char (n mod 10)])"

declare decimal.simps [simp del]

definition parseInt10 :: "string \<Rightarrow> nat" where
  \<comment> \<open>\<open>parseInt(ds, 10)\<close> on a non-empty string of digits. The model keeps the exact
      integer; the double that JavaScript returns differs from it only above \<open>2^53\<close>,
      where both exceed the length of every buffer, so the test of line 59 agrees\<close>
  "parseInt10 ds = foldl (\<lambda>a c. 10 * a + digit_val c) 0 ds"

definition upper :: "char \<Rightarrow> char" where
  \<comment> \<open>canonicalisation of the \<open>i\<close> flag: an ASCII letter becomes its capital, and no byte
      of a non-ASCII character becomes an ASCII one\<close>
  "upper c = (case map_of (zip ''abcdefghijklmnopqrstuvwxyz'' ''ABCDEFGHIJKLMNOPQRSTUVWXYZ'') c of
                Some u \<Rightarrow> u | None \<Rightarrow> c)"

definition ws1 :: "char list" where
  \<comment> \<open>\<open>\s\<close>, one byte: TAB, LF, VT, FF, CR, SPACE\<close>
  "ws1 = [CHR 0x09, CHR 0x0A, CHR 0x0B, CHR 0x0C, CHR 0x0D, CHR 0x20]"

definition ws2 :: "string list" where
  \<comment> \<open>\<open>\s\<close>, two bytes of UTF-8: U+00A0\<close>
  "ws2 = [[CHR 0xC2, CHR 0xA0]]"

definition ws3 :: "string list" where
  \<comment> \<open>\<open>\s\<close>, three bytes of UTF-8: U+1680, U+2000 to U+200A, U+2028, U+2029, U+202F,
      U+205F, U+3000, U+FEFF\<close>
  "ws3 = [[CHR 0xE1, CHR 0x9A, CHR 0x80],
          [CHR 0xE2, CHR 0x80, CHR 0x80], [CHR 0xE2, CHR 0x80, CHR 0x81],
          [CHR 0xE2, CHR 0x80, CHR 0x82], [CHR 0xE2, CHR 0x80, CHR 0x83],
          [CHR 0xE2, CHR 0x80, CHR 0x84], [CHR 0xE2, CHR 0x80, CHR 0x85],
          [CHR 0xE2, CHR 0x80, CHR 0x86], [CHR 0xE2, CHR 0x80, CHR 0x87],
          [CHR 0xE2, CHR 0x80, CHR 0x88], [CHR 0xE2, CHR 0x80, CHR 0x89],
          [CHR 0xE2, CHR 0x80, CHR 0x8A], [CHR 0xE2, CHR 0x80, CHR 0xA8],
          [CHR 0xE2, CHR 0x80, CHR 0xA9], [CHR 0xE2, CHR 0x80, CHR 0xAF],
          [CHR 0xE2, CHR 0x81, CHR 0x9F], [CHR 0xE3, CHR 0x80, CHR 0x80],
          [CHR 0xEF, CHR 0xBB, CHR 0xBF]]"

fun skip_ws :: "string \<Rightarrow> string" where
  \<comment> \<open>\<open>\s*\<close>: the text after the longest run of white space\<close>
  "skip_ws [] = []"
| "skip_ws (c # cs) =
     (if c \<in> set ws1 then skip_ws cs
      else if take 2 (c # cs) \<in> set ws2 then skip_ws (drop 1 cs)
      else if take 3 (c # cs) \<in> set ws3 then skip_ws (drop 2 cs)
      else c # cs)"

definition match_here :: "string \<Rightarrow> string option" where
  \<comment> \<open>\<open>/Content-Length:\s*(\d+)/i\<close> tried at the start of the text: the group \<open>(\d+)\<close>\<close>
  "match_here s =
     (if map upper (take 15 s) = ''CONTENT-LENGTH:''
      then (let ds = takeWhile is_digit (skip_ws (drop 15 s))
            in if ds = [] then None else Some ds)
      else None)"

fun header_match :: "string \<Rightarrow> string option" where
  \<comment> \<open>\<open>header.match(/Content-Length:\s*(\d+)/i)\<close>: the leftmost match's \<open>match[1]\<close>\<close>
  "header_match [] = match_here []"
| "header_match (c # cs) =
     (case match_here (c # cs) of Some ds \<Rightarrow> Some ds | None \<Rightarrow> header_match cs)"

section \<open>JavaScript values\<close>

text \<open>
  The values \<open>JSON.parse\<close> returns. A number \<open>JNum x\<close> is the rational \<open>x\<close> that the
  JavaScript number denotes (every JSON number is finite; \<open>-0\<close> and \<open>0\<close> are one value
  here, and the code treats them alike). A string is the byte string of its UTF-8 form;
  an object is the list of its own properties.
\<close>

datatype json =
    JNull
  | JBool bool
  | JNum rat
  | JStr string
  | JArr "json list"
  | JObj "(string \<times> json) list"

datatype js_error = SyntaxError | TypeError

fun get_prop :: "json \<Rightarrow> string \<Rightarrow> json option" where
  \<comment> \<open>\<open>v.k\<close> for a value \<open>v\<close> other than \<open>null\<close> and a key \<open>k\<close> that no prototype defines
      (\<open>id\<close>, \<open>jsonrpc\<close>); \<open>None\<close> is \<open>undefined\<close>\<close>
  "get_prop (JObj ps) k = map_of ps k"
| "get_prop v k = None"

definition show_int :: "int \<Rightarrow> string" where
  "show_int i = (if i < 0 then CHR ''-'' # decimal (nat (- i)) else decimal (nat i))"

fun join :: "string \<Rightarrow> string list \<Rightarrow> string" where
  "join s [] = []"
| "join s [x] = x"
| "join s (x # y # ys) = x @ s @ join s (y # ys)"

section \<open>The runtime's JSON functions\<close>

text \<open>
  \<open>JSON.parse\<close> and \<open>JSON.stringify\<close> belong to the JavaScript runtime, not to the bridge:
  the model takes them as parameters, composed with the UTF-8 conversion the code applies.
  \<open>BRIDGE_TOKEN\<close> is the environment variable of that name.
\<close>

record runtime =
  JSON_parse :: "string \<Rightarrow> json option"
    \<comment> \<open>\<open>JSON.parse(buf.toString('utf8'))\<close>; \<open>None\<close> is the SyntaxError\<close>
  JSON_stringify :: "json \<Rightarrow> string"
    \<comment> \<open>\<open>Buffer.from(JSON.stringify(v), 'utf8')\<close>\<close>
  BRIDGE_TOKEN :: string

definition safe_integer :: "rat \<Rightarrow> bool" where
  \<comment> \<open>\<open>Number.isSafeInteger(x)\<close>: an integer of magnitude below \<open>2^53\<close>\<close>
  "safe_integer x = (of_int \<lfloor>x\<rfloor> = x \<and> \<bar>x\<bar> < 2 ^ 53)"

fun js_String :: "runtime \<Rightarrow> json \<Rightarrow> string option" where
  \<comment> \<open>\<open>String(v)\<close>. A safe integer is rendered by its decimal digits; for any other number
      \<open>String\<close> is the conversion that \<open>JSON.stringify\<close> applies to a finite number, so
      the runtime gives it. \<open>None\<close> is the TypeError of an object whose own \<open>toString\<close>
      property hides \<open>Object.prototype.toString\<close> (a JSON value is never callable)\<close>
  "js_String rt JNull = Some ''null''"
| "js_String rt (JBool b) = Some (if b then ''true'' else ''false'')"
| "js_String rt (JNum x) =
     Some (if safe_integer x then show_int \<lfloor>x\<rfloor> else JSON_stringify rt (JNum x))"
| "js_String rt (JStr s) = Some s"
| "js_String rt (JArr xs) =
     map_option (join '','')
       (those (map (\<lambda>x. if x = JNull then Some [] else js_String rt x) xs))"
| "js_String rt (JObj ps) =
     (if ''toString'' \<in> fst ` set ps then None else Some ''[object Object]'')"

section \<open>The frame codec\<close>

definition writeMessage :: "runtime \<Rightarrow> json \<Rightarrow> string list" where
  \<comment> \<open>the chunks written to \<open>mcp.stdin\<close>, in order: the header, then the payload
      (\<open>json.length\<close> is the number of bytes)\<close>
  "writeMessage rt obj =
     (let json = JSON_stringify rt obj;
          header = ''Content-Length: '' @ decimal (length json) @ sep
      in [header, json])"

definition encode :: "runtime \<Rightarrow> json \<Rightarrow> string" where
  \<comment> \<open>the bytes one \<open>writeMessage\<close> call puts on the stream\<close>
  "encode rt obj = concat (writeMessage rt obj)"

text \<open>
  What the body of the loop does with one complete frame. The pending table maps the
  string form of an id to the request that waits for it (its \<open>{resolve, reject}\<close> pair).
\<close>

datatype outcome =
    Resolved string nat json
      \<comment> \<open>\<open>resolve(msg)\<close> of the request registered under the key\<close>
  | Unsolicited json
      \<comment> \<open>\<open>console.log('MCP notification/extra:', msg)\<close>\<close>
  | Failed js_error
      \<comment> \<open>\<open>console.error('JSON parse error from mcp-remote:', e)\<close>\<close>

definition dispatch ::
  "runtime \<Rightarrow> (string \<rightharpoonup> nat) \<Rightarrow> json \<Rightarrow> outcome \<times> (string \<rightharpoonup> nat)" where
  \<comment> \<open>lines 66 to 72; \<open>msg.id\<close> of \<open>null\<close> and a failing \<open>String(msg.id)\<close> throw inside
      the \<open>try\<close> block and reach the \<open>catch\<close>\<close>
  "dispatch rt pending msg =
     (if msg = JNull then (Failed TypeError, pending)
      else (case get_prop msg ''id'' of
              None \<Rightarrow> (Unsolicited msg, pending)
            | Some i \<Rightarrow>
                if i = JNull then (Unsolicited msg, pending)
                else (case js_String rt i of
                        None \<Rightarrow> (Failed TypeError, pending)
                      | Some k \<Rightarrow>
                          (case pending k of
                             None \<Rightarrow> (Unsolicited msg, pending)
                           | Some h \<Rightarrow> (Resolved k h msg, pending(k := None))))))"

definition handle_frame ::
  "runtime \<Rightarrow> (string \<rightharpoonup> nat) \<Rightarrow> string \<Rightarrow> outcome \<times> (string \<rightharpoonup> nat)" where
  \<comment> \<open>the \<open>try\<close> statement, lines 64 to 75\<close>
  "handle_frame rt pending jsonBuf =
     (case JSON_parse rt jsonBuf of
        None \<Rightarrow> (Failed SyntaxError, pending)
      | Some msg \<Rightarrow> dispatch rt pending msg)"

function tryParseMessages ::
  "runtime \<Rightarrow> string \<Rightarrow> (string \<rightharpoonup> nat) \<Rightarrow> outcome list \<times> string \<times> (string \<rightharpoonup> nat)" where
  \<comment> \<open>the loop of lines 45 to 77 on \<open>readBuffer\<close> and \<open>pending\<close>: the outcomes in order,
      the buffer and the table it leaves\<close>
  "tryParseMessages rt readBuffer pending =
     (case indexOf readBuffer sep of
        None \<Rightarrow> ([], readBuffer, pending)
      | Some idx \<Rightarrow>
          (case header_match (take idx readBuffer) of
             None \<Rightarrow> tryParseMessages rt (drop (idx + length sep) readBuffer) pending
           | Some ds \<Rightarrow>
               (let len = parseInt10 ds; start = idx + length sep in
                if length readBuffer < start + len then ([], readBuffer, pending)
                else (case handle_frame rt pending (take len (drop start readBuffer)) of
                        (out, pending') \<Rightarrow>
                          (case tryParseMessages rt (drop (start + len) readBuffer) pending' of
                             (outs, rest) \<Rightarrow> (out # outs, rest))))))"
  by pat_completeness auto
termination
proof (relation "measure (\<lambda>(rt, buf, pending). length buf)")
  show "wf (measure (\<lambda>(rt, buf, pending). length buf))" by simp
next
  fix rt :: runtime and readBuffer :: string and pending :: "string \<rightharpoonup> nat" and idx
  assume found: "indexOf readBuffer sep = Some idx"
  have bound: "indexOf buf pat = Some i \<Longrightarrow> i + length pat \<le> length buf" for buf pat i
  proof (induction buf arbitrary: i)
    case Nil
    then show ?case by (simp split: if_splits)
  next
    case (Cons c cs)
    show ?case
    proof (cases "prefix pat (c # cs)")
      case True
      from prefix_length_le [OF True] Cons.prems True show ?thesis by simp
    next
      case False
      with Cons.prems obtain j where "indexOf cs pat = Some j" "i = Suc j" by auto
      with Cons.IH show ?thesis by fastforce
    qed
  qed
  from bound [OF found] have "idx + 4 \<le> length readBuffer" by (simp add: sep_def)
  then show "((rt, drop (idx + length sep) readBuffer, pending), rt, readBuffer, pending)
        \<in> measure (\<lambda>(rt, buf, pending). length buf)"
    by (simp add: sep_def)
next
  fix rt :: runtime and readBuffer :: string and pending :: "string \<rightharpoonup> nat"
    and idx ds len start x out pending'
  assume "start = idx + length sep" "\<not> length readBuffer < start + len"
  then show "((rt, drop (start + len) readBuffer, pending'), rt, readBuffer, pending)
        \<in> measure (\<lambda>(rt, buf, pending). length buf)"
    by (simp add: sep_def)
qed

declare tryParseMessages.simps [simp del]

section \<open>The bridge: correlation table, timers and HTTP handlers\<close>

text \<open>
  The process state the handlers share. HTTP requests are numbered in order of arrival;
  the promise created for request \<open>r\<close> is settled at most once (a second \<open>resolve\<close> or
  \<open>reject\<close> of a settled promise does nothing), and the continuation of the \<open>await\<close>
  sends the response of request \<open>r\<close>. A timer is the closure of \<open>setTimeout\<close>: its due
  time in milliseconds, the request whose \<open>reject\<close> it holds and the \<open>idKey\<close> it tests.
  No timer is ever cancelled: the code has no \<open>clearTimeout\<close>. The payload of a request
  was parsed by \<open>express.json\<close>, so \<open>writeMessage\<close> does not throw on it.
\<close>

record bridge =
  readBuffer :: string
  pending :: "string \<rightharpoonup> nat"
  settled :: "nat set"
  timers :: "(nat \<times> nat \<times> string) list"
  clock :: nat
  requests :: nat
  running :: bool

definition initial :: bridge where
  "initial = \<lparr>readBuffer = [], pending = Map.empty, settled = {}, timers = [],
              clock = 0, requests = 0, running = True\<rparr>"

datatype effect =
    Response nat nat json
      \<comment> \<open>\<open>res.status(code).json(body)\<close> on request \<open>r\<close>\<close>
  | StdinWrite string
      \<comment> \<open>\<open>mcp.stdin.write(bytes)\<close>\<close>
  | StderrWrite string
      \<comment> \<open>\<open>process.stderr.write(chunk)\<close>\<close>
  | ConsoleLog json
      \<comment> \<open>\<open>console.log('MCP notification/extra:', msg)\<close>\<close>
  | ConsoleError js_error
      \<comment> \<open>\<open>console.error('JSON parse error from mcp-remote:', e)\<close>\<close>
  | ExitLogged "int option"
      \<comment> \<open>\<open>console.error('mcp-remote exited with code', code)\<close>\<close>
  | ProcessExit nat
      \<comment> \<open>\<open>process.exit(1)\<close>\<close>
  | Uncaught nat js_error
      \<comment> \<open>the handler of request \<open>r\<close> threw outside its \<open>try\<close> block; no response is sent\<close>

record request =
  authorization :: "string option"
  body :: "json option"

datatype event =
    PostRpc request
  | GetHealth
  | StdoutData string
  | StderrData string
  | Elapse nat
      \<comment> \<open>so many milliseconds pass, and the timers then due run in the order they were set\<close>
  | McpExit "int option"

definition error_body :: "string \<Rightarrow> json" where
  "error_body m = JObj [(''error'', JStr m)]"

definition timeout_body :: json where
  \<comment> \<open>\<open>{ error: 'timeout or bridge error', detail: e.message }\<close> for \<open>new Error('timeout')\<close>\<close>
  "timeout_body = JObj [(''error'', JStr ''timeout or bridge error''), (''detail'', JStr ''timeout'')]"

definition settle :: "nat \<Rightarrow> nat \<Rightarrow> json \<Rightarrow> bridge \<Rightarrow> effect list \<times> bridge" where
  \<comment> \<open>\<open>resolve\<close> or \<open>reject\<close> of the promise of request \<open>r\<close>, and lines 148 to 152 after it\<close>
  "settle r code b st =
     (if r \<in> settled st then ([], st)
      else ([Response r code b], st\<lparr>settled := insert r (settled st)\<rparr>))"

fun run_all :: "('a \<Rightarrow> bridge \<Rightarrow> effect list \<times> bridge) \<Rightarrow> 'a list \<Rightarrow> bridge \<Rightarrow> effect list \<times> bridge" where
  "run_all f [] st = ([], st)"
| "run_all f (x # xs) st =
     (case f x st of (es, st') \<Rightarrow>
        (case run_all f xs st' of (es', st'') \<Rightarrow> (es @ es', st'')))"

definition deliver :: "outcome \<Rightarrow> bridge \<Rightarrow> effect list \<times> bridge" where
  \<comment> \<open>the visible part of one outcome of the loop\<close>
  "deliver out st =
     (case out of
        Resolved k r msg \<Rightarrow> settle r 200 msg st
      | Unsolicited msg \<Rightarrow> ([ConsoleLog msg], st)
      | Failed e \<Rightarrow> ([ConsoleError e], st))"

definition on_data :: "runtime \<Rightarrow> string \<Rightarrow> bridge \<Rightarrow> effect list \<times> bridge" where
  \<comment> \<open>\<open>mcp.stdout.on('data', ...)\<close>, lines 79 to 82\<close>
  "on_data rt chunk st =
     (case tryParseMessages rt (readBuffer st @ chunk) (pending st) of
        (outs, buf, pending') \<Rightarrow>
          run_all deliver outs (st\<lparr>readBuffer := buf, pending := pending'\<rparr>))"

definition fire :: "nat \<times> nat \<times> string \<Rightarrow> bridge \<Rightarrow> effect list \<times> bridge" where
  \<comment> \<open>the callback of \<open>setTimeout\<close>, lines 139 to 142\<close>
  "fire t st =
     (case t of (due, r, idKey) \<Rightarrow>
        if pending st idKey \<noteq> None
        then settle r 504 timeout_body (st\<lparr>pending := (pending st)(idKey := None)\<rparr>)
        else ([], st))"

definition elapse :: "nat \<Rightarrow> bridge \<Rightarrow> effect list \<times> bridge" where
  "elapse dt st =
     (let now = clock st + dt;
          due = filter (\<lambda>t. fst t \<le> now) (timers st);
          later = filter (\<lambda>t. \<not> fst t \<le> now) (timers st)
      in run_all fire due (st\<lparr>clock := now, timers := later\<rparr>))"

fun truthy :: "json \<Rightarrow> bool" where
  \<comment> \<open>what \<open>!v\<close> negates\<close>
  "truthy JNull = False"
| "truthy (JBool b) = b"
| "truthy (JNum n) = (n \<noteq> 0)"
| "truthy (JStr s) = (s \<noteq> [])"
| "truthy (JArr xs) = True"
| "truthy (JObj ps) = True"

fun typeof_object :: "json \<Rightarrow> bool" where
  \<comment> \<open>\<open>typeof v === 'object'\<close>\<close>
  "typeof_object JNull = True"
| "typeof_object (JArr xs) = True"
| "typeof_object (JObj ps) = True"
| "typeof_object v = False"

definition post_rpc :: "runtime \<Rightarrow> request \<Rightarrow> bridge \<Rightarrow> effect list \<times> bridge" where
  \<comment> \<open>\<open>app.post('/rpc', auth, ...)\<close>: the middleware \<open>auth\<close> (lines 103 to 113), then the
      handler (lines 119 to 153); a missing body is \<open>None\<close>\<close>
  "post_rpc rt req st0 =
     (let r = requests st0;
          st = st0\<lparr>requests := Suc r\<rparr>;
          auth = (case authorization req of None \<Rightarrow> [] | Some a \<Rightarrow> a)
      in if \<not> prefix ''Bearer '' auth then
           ([Response r 401 (error_body ''missing bearer token'')], st)
         else if drop (length ''Bearer '') auth \<noteq> BRIDGE_TOKEN rt then
           ([Response r 403 (error_body ''forbidden'')], st)
         else
           (case body req of
              None \<Rightarrow> ([Response r 400 (error_body ''invalid JSON'')], st)
            | Some payload \<Rightarrow>
                if \<not> truthy payload \<or> \<not> typeof_object payload then
                  ([Response r 400 (error_body ''invalid JSON'')], st)
                else if (case get_prop payload ''jsonrpc'' of
                           None \<Rightarrow> True
                         | Some v \<Rightarrow> \<not> truthy v \<or> v \<noteq> JStr ''2.0'') then
                  ([Response r 400 (error_body (''jsonrpc must be '' @ [CHR 0x22] @ ''2.0'' @ [CHR 0x22]))], st)
                else
                  (case get_prop payload ''id'' of
                     None \<Rightarrow> ([Response r 400 (error_body ''missing id'')], st)
                   | Some i \<Rightarrow>
                       if i = JNull then ([Response r 400 (error_body ''missing id'')], st)
                       else
                         (case js_String rt i of
                            None \<Rightarrow> ([Uncaught r TypeError], st)
                          | Some idKey \<Rightarrow>
                              if pending st idKey \<noteq> None then
                                ([Response r 409 (error_body ''duplicate id in flight'')], st)
                              else
                                (map StdinWrite (writeMessage rt payload),
                                 st\<lparr>pending := (pending st)(idKey \<mapsto> r),
                                    timers := timers st @ [(clock st + 250000, r, idKey)]\<rparr>)))))"

definition get_health :: "bridge \<Rightarrow> effect list \<times> bridge" where
  \<comment> \<open>\<open>app.get('/health', ...)\<close>\<close>
  "get_health st =
     ([Response (requests st) 200 (JObj [(''ok'', JBool True)])], st\<lparr>requests := Suc (requests st)\<rparr>)"

definition on_exit :: "int option \<Rightarrow> bridge \<Rightarrow> effect list \<times> bridge" where
  \<comment> \<open>\<open>mcp.on('exit', ...)\<close>, lines 88 to 91\<close>
  "on_exit code st = ([ExitLogged code, ProcessExit 1], st\<lparr>running := False\<rparr>)"

definition step :: "runtime \<Rightarrow> event \<Rightarrow> bridge \<Rightarrow> effect list \<times> bridge" where
  \<comment> \<open>one turn of the event loop; after \<open>process.exit\<close> nothing runs\<close>
  "step rt ev st =
     (if \<not> running st then ([], st)
      else (case ev of
              PostRpc req \<Rightarrow> post_rpc rt req st
            | GetHealth \<Rightarrow> get_health st
            | StdoutData chunk \<Rightarrow> on_data rt chunk st
            | StderrData chunk \<Rightarrow> ([StderrWrite chunk], st)
            | Elapse dt \<Rightarrow> elapse dt st
            | McpExit code \<Rightarrow> on_exit code st))"

definition run :: "runtime \<Rightarrow> event list \<Rightarrow> bridge \<Rightarrow> effect list \<times> bridge" where
  "run rt evs st = run_all (step rt) evs st"

section \<open>A runtime to run the model on\<close>

text \<open>
  \<open>JSON.stringify\<close> and \<open>JSON.parse\<close> on the fragment the examples below use: integers,
  strings of printable characters other than the quote and the backslash, arrays and
  objects, with no white space between the tokens. On a text outside the fragment
  \<open>compact_parse\<close> returns \<open>None\<close>. The first argument of the parsing functions bounds the
  depth of the recursion.
\<close>

fun parse_string_body :: "string \<Rightarrow> (string \<times> string) option" where
  "parse_string_body [] = None"
| "parse_string_body (c # cs) =
     (if c = CHR 0x22 then Some ([], cs)
      else if c = CHR 0x5C \<or> (of_char c :: nat) < 32 then None
      else map_option (\<lambda>(s, r). (c # s, r)) (parse_string_body cs))"

definition parse_number :: "string \<Rightarrow> (json \<times> string) option" where
  "parse_number s =
     (let neg = prefix ''-'' s;
          t = (if neg then drop 1 s else s);
          ds = takeWhile is_digit t;
          r = dropWhile is_digit t
      in if ds = [] \<or> (1 < length ds \<and> prefix ''0'' ds) \<or> take 1 r \<in> {''.'', ''e'', ''E''}
         then None
         else Some (JNum (of_int (if neg then - int (parseInt10 ds) else int (parseInt10 ds))), r))"

fun parse_value :: "nat \<Rightarrow> string \<Rightarrow> (json \<times> string) option"
  and parse_elements :: "nat \<Rightarrow> string \<Rightarrow> (json list \<times> string) option"
  and parse_members :: "nat \<Rightarrow> string \<Rightarrow> ((string \<times> json) list \<times> string) option" where
  "parse_value 0 s = None"
| "parse_value (Suc f) s =
     (if prefix ''null'' s then Some (JNull, drop 4 s)
      else if prefix ''true'' s then Some (JBool True, drop 4 s)
      else if prefix ''false'' s then Some (JBool False, drop 5 s)
      else if prefix [CHR 0x22] s then
        map_option (\<lambda>(x, r). (JStr x, r)) (parse_string_body (drop 1 s))
      else if prefix ''[]'' s then Some (JArr [], drop 2 s)
      else if prefix ''['' s then
        map_option (\<lambda>(xs, r). (JArr xs, r)) (parse_elements f (drop 1 s))
      else if prefix ''{}'' s then Some (JObj [], drop 2 s)
      else if prefix ''{'' s then
        map_option (\<lambda>(ps, r). (JObj ps, r)) (parse_members f (drop 1 s))
      else parse_number s)"
| "parse_elements 0 s = None"
| "parse_elements (Suc f) s =
     (case parse_value f s of
        None \<Rightarrow> None
      | Some (v, r) \<Rightarrow>
          if prefix '','' r then
            map_option (\<lambda>(vs, r'). (v # vs, r')) (parse_elements f (drop 1 r))
          else if prefix '']'' r then Some ([v], drop 1 r)
          else None)"
| "parse_members 0 s = None"
| "parse_members (Suc f) s =
     (if prefix [CHR 0x22] s then
        (case parse_string_body (drop 1 s) of
           None \<Rightarrow> None
         | Some (k, r) \<Rightarrow>
             if prefix '':'' r then
               (case parse_value f (drop 1 r) of
                  None \<Rightarrow> None
                | Some (v, r') \<Rightarrow>
                    if prefix '','' r' then
                      map_option (\<lambda>(ps, r''). ((k, v) # ps, r'')) (parse_members f (drop 1 r'))
                    else if prefix ''}'' r' then Some ([(k, v)], drop 1 r')
                    else None)
             else None)
      else None)"

definition compact_parse :: "string \<Rightarrow> json option" where
  "compact_parse s =
     (case parse_value (Suc (length s)) s of
        Some (v, []) \<Rightarrow> Some v
      | _ \<Rightarrow> None)"

fun compact_stringify :: "json \<Rightarrow> string" where
  "compact_stringify JNull = ''null''"
| "compact_stringify (JBool b) = (if b then ''true'' else ''false'')"
| "compact_stringify (JNum x) = show_int \<lfloor>x\<rfloor>"
| "compact_stringify (JStr s) = [CHR 0x22] @ s @ [CHR 0x22]"
| "compact_stringify (JArr xs) = ''['' @ join '','' (map compact_stringify xs) @ '']''"
| "compact_stringify (JObj ps) =
     ''{'' @ join '',''
              (map (\<lambda>(k, v). [CHR 0x22] @ k @ [CHR 0x22] @ '':'' @ compact_stringify v) ps) @ ''}''"

definition node :: runtime where
  "node = \<lparr>JSON_parse = compact_parse, JSON_stringify = compact_stringify,
           BRIDGE_TOKEN = ''s3cret''\<rparr>"

definition rpc_call :: "json \<Rightarrow> string \<Rightarrow> request" where
  \<comment> \<open>an authorised request for \<open>node\<close>, with a JSON-RPC 2.0 body\<close>
  "rpc_call i m =
     \<lparr>authorization = Some ''Bearer s3cret'',
      body = Some (JObj [(''jsonrpc'', JStr ''2.0''), (''id'', i), (''method'', JStr m)])\<rparr>"

definition rpc_reply :: "json \<Rightarrow> json" where
  "rpc_reply i = JObj [(''jsonrpc'', JStr ''2.0''), (''id'', i), (''result'', JObj [])]"

definition reused_id_trace :: "event list" where
  \<comment> \<open>two requests with the same id, the second sent after the first was answered\<close>
  "reused_id_trace =
     [PostRpc (rpc_call (JNum 1) ''a''),
      Elapse 10000,
      StdoutData (encode node (rpc_reply (JNum 1))),
      Elapse 10000,
      PostRpc (rpc_call (JNum 1) ''b''),
      Elapse 230000,
      Elapse 20000]"

section \<open>What the specification calls the decoded values\<close>

fun decoded :: "outcome \<Rightarrow> json list" where
  \<comment> \<open>the value an outcome hands on, to a waiting request or to the notification log\<close>
  "decoded (Resolved k r msg) = [msg]"
| "decoded (Unsolicited msg) = [msg]"
| "decoded (Failed e) = []"

definition decode_all :: "runtime \<Rightarrow> string \<Rightarrow> json list \<times> string" where
  \<comment> \<open>\<open>decode_all(buffer)\<close> of the specification: the decoded values and the remaining
      buffer, from an empty pending table\<close>
  "decode_all rt buf =
     (case tryParseMessages rt buf Map.empty of
        (outs, rest, pending') \<Rightarrow> (concat (map decoded outs), rest))"

definition deliverable :: "runtime \<Rightarrow> json \<Rightarrow> bool" where
  \<comment> \<open>the values on which lines 66 to 72 do not throw\<close>
  "deliverable rt v =
     (v \<noteq> JNull \<and>
      (case get_prop v ''id'' of
         None \<Rightarrow> True
       | Some i \<Rightarrow> i = JNull \<or> js_String rt i \<noteq> None))"

section \<open>Responses and the invariant of the correlation table\<close>

fun responders :: "effect list \<Rightarrow> nat list" where
  \<comment> \<open>the requests that are sent a response, in order\<close>
  "responders [] = []"
| "responders (Response r code b # es) = r # responders es"
| "responders (e # es) = responders es"

definition eligible :: "bridge \<Rightarrow> nat set \<Rightarrow> nat \<Rightarrow> bool" where
  \<comment> \<open>request \<open>r\<close> has arrived, and if it is among the answered requests \<open>R\<close> its promise
      is settled\<close>
  "eligible st R r = (r < requests st \<and> (r \<in> R \<longrightarrow> r \<in> settled st))"

definition table_inv :: "bridge \<Rightarrow> nat set \<Rightarrow> bool" where
  \<comment> \<open>every answered request has arrived, and every request that the table or a timer
      holds is eligible\<close>
  "table_inv st R =
     ((\<forall>r \<in> R. r < requests st) \<and>
      (\<forall>k r. pending st k = Some r \<longrightarrow> eligible st R r) \<and>
      (\<forall>t \<in> set (timers st). eligible st R (fst (snd t))))"

definition answers_once :: "bridge \<Rightarrow> nat set \<Rightarrow> effect list \<times> bridge \<Rightarrow> bool" where
  \<comment> \<open>a handler run from \<open>st\<close>, where the requests \<open>R\<close> were answered before: it answers
      no request twice and none of \<open>R\<close>, and keeps the invariant and every eligibility\<close>
  "answers_once st R res =
     (distinct (responders (fst res)) \<and>
      set (responders (fst res)) \<inter> R = {} \<and>
      table_inv (snd res) (R \<union> set (responders (fst res))) \<and>
      (\<forall>r. eligible st R r \<longrightarrow> eligible (snd res) (R \<union> set (responders (fst res))) r))"

fun settles :: "outcome \<Rightarrow> nat option" where
  \<comment> \<open>the request whose \<open>resolve\<close> an outcome calls\<close>
  "settles (Resolved k r msg) = Some r"
| "settles out = None"

section \<open>Properties of the byte-level functions\<close>

lemma indexOf_bound: "indexOf buf pat = Some i \<Longrightarrow> i + length pat \<le> length buf"
proof (induction buf arbitrary: i)
  case Nil
  then show ?case by (simp split: if_splits)
next
  case (Cons c cs)
  show ?case
  proof (cases "prefix pat (c # cs)")
    case True
    from prefix_length_le [OF True] Cons.prems True show ?thesis by simp
  next
    case False
    with Cons.prems obtain j where "indexOf cs pat = Some j" "i = Suc j" by auto
    with Cons.IH show ?thesis by fastforce
  qed
qed

lemma indexOf_append: "indexOf a pat = Some i \<Longrightarrow> indexOf (a @ b) pat = Some i"
proof (induction a arbitrary: i)
  case Nil
  then show ?case by (cases b) (simp_all split: if_splits)
next
  case (Cons c cs)
  show ?case
  proof (cases "prefix pat (c # cs)")
    case True
    then have "prefix pat ((c # cs) @ b)" by (rule prefix_prefix)
    with True Cons.prems show ?thesis by simp
  next
    case False
    with Cons.prems obtain j where j: "indexOf cs pat = Some j" "i = Suc j" by auto
    from indexOf_bound [OF j(1)] have "length pat \<le> length (c # cs)" by simp
    with False have "\<not> prefix pat ((c # cs) @ b)"
      by (metis prefix_length_prefix prefixI)
    with j Cons.IH show ?thesis by simp
  qed
qed

lemma indexOf_skip:
  "CHR 0x0D \<noteq> c \<Longrightarrow> indexOf (c # cs) sep = map_option Suc (indexOf cs sep)"
  by (simp add: sep_def)

lemma indexOf_sep_header:
  "CHR 0x0D \<notin> set h \<Longrightarrow> indexOf (h @ sep @ rest) sep = Some (length h)"
proof (induction h)
  case Nil
  show ?case by (simp add: sep_def)
next
  case (Cons c cs)
  then show ?case by (simp del: indexOf.simps add: indexOf_skip)
qed

lemma indexOf_short: "length a < length pat \<Longrightarrow> indexOf a pat = None"
  using indexOf_bound [of a pat] by (cases "indexOf a pat") auto

lemma proper_prefix_shorter: "prefix a p \<Longrightarrow> a \<noteq> p \<Longrightarrow> length a < length p"
  by (auto simp: prefix_def)

lemma indexOf_sep_proper_prefix:
  "CHR 0x0D \<notin> set h \<Longrightarrow> prefix a (h @ sep) \<Longrightarrow> a \<noteq> h @ sep \<Longrightarrow> indexOf a sep = None"
proof (induction h arbitrary: a)
  case Nil
  then have "prefix a sep" "a \<noteq> sep" by simp_all
  then have "length a < length sep"
    by (simp add: proper_prefix_shorter)
  then show ?case by (rule indexOf_short)
next
  case (Cons c cs)
  show ?case
  proof (cases a)
    case Nil
    then show ?thesis by (simp add: sep_def)
  next
    case (Cons d ds)
    with Cons.prems have d: "d = c" "prefix ds (cs @ sep)" "ds \<noteq> cs @ sep" "CHR 0x0D \<noteq> c"
      by auto
    with Cons.IH [of ds] Cons.prems(1) have "indexOf ds sep = None" by simp
    with d Cons show ?thesis by (simp del: indexOf.simps add: indexOf_skip)
  qed
qed

lemma digit_char_is_digit: "d < 10 \<Longrightarrow> is_digit (digit_char d)"
proof -
  assume "d < 10"
  then have "d \<in> {0, 1, 2, 3, 4, 5, 6, 7, 8, 9}" by auto
  then show ?thesis by (auto simp: is_digit_def digit_char_def)
qed

lemma digit_val_digit_char: "d < 10 \<Longrightarrow> digit_val (digit_char d) = d"
proof -
  assume "d < 10"
  then have "d \<in> {0, 1, 2, 3, 4, 5, 6, 7, 8, 9}" by auto
  then show ?thesis by (auto simp: digit_val_def digit_char_def)
qed

lemma decimal_digits: "c \<in> set (decimal n) \<Longrightarrow> is_digit c"
proof (induction n arbitrary: c rule: decimal.induct)
  case (1 n)
  show ?case
  proof (cases "n < 10")
    case True
    with "1.prems" show ?thesis by (subst (asm) decimal.simps) (simp add: digit_char_is_digit)
  next
    case False
    with "1.prems" have "c \<in> set (decimal (n div 10)) \<or> c = digit_char (n mod 10)"
      by (subst (asm) decimal.simps) auto
    with False "1.IH" show ?thesis by (auto simp: digit_char_is_digit)
  qed
qed

lemma decimal_nonempty: "decimal n \<noteq> []"
  by (subst decimal.simps) simp

lemma parseInt10_snoc: "parseInt10 (ds @ [c]) = 10 * parseInt10 ds + digit_val c"
  by (simp add: parseInt10_def)

lemma parseInt10_decimal: "parseInt10 (decimal n) = n"
proof (induction n rule: decimal.induct)
  case (1 n)
  show ?case
  proof (cases "n < 10")
    case True
    then show ?thesis by (subst decimal.simps) (simp add: parseInt10_def digit_val_digit_char)
  next
    case False
    then have "decimal n = decimal (n div 10) @ [digit_char (n mod 10)]"
      by (subst decimal.simps) simp
    with False "1.IH" show ?thesis
      by (simp add: parseInt10_snoc digit_val_digit_char)
  qed
qed

lemma is_digit_not_CR: "is_digit c \<Longrightarrow> CHR 0x0D \<noteq> c"
  by (auto simp: is_digit_def)

lemma ws2_hd: "x \<in> set ws2 \<Longrightarrow> hd x = CHR 0xC2"
  by (auto simp: ws2_def)

lemma ws3_hd: "x \<in> set ws3 \<Longrightarrow> hd x \<in> {CHR 0xE1, CHR 0xE2, CHR 0xE3, CHR 0xEF}"
  by (auto simp: ws3_def)

lemma digit_not_ws:
  "is_digit c \<Longrightarrow> c \<notin> set ws1 \<and> c \<noteq> CHR 0xC2 \<and> c \<notin> {CHR 0xE1, CHR 0xE2, CHR 0xE3, CHR 0xEF}"
  by (auto simp: is_digit_def ws1_def)

lemma skip_ws_digit: "is_digit c \<Longrightarrow> skip_ws (c # cs) = c # cs"
proof -
  assume d: "is_digit c"
  have "take 2 (c # cs) \<notin> set ws2"
    using ws2_hd [of "take 2 (c # cs)"] digit_not_ws [OF d] by auto
  moreover have "take 3 (c # cs) \<notin> set ws3"
    using ws3_hd [of "take 3 (c # cs)"] digit_not_ws [OF d] by auto
  moreover have "c \<notin> set ws1" using digit_not_ws [OF d] by simp
  ultimately show ?thesis by (simp only: skip_ws.simps if_False)
qed

lemma takeWhile_all: "(\<And>c. c \<in> set ds \<Longrightarrow> P c) \<Longrightarrow> takeWhile P (ds @ rest) = ds @ takeWhile P rest"
  by (induction ds) auto

lemma header_match_header: "header_match (''Content-Length: '' @ decimal n) = Some (decimal n)"
proof -
  obtain d ds where dec: "decimal n = d # ds"
    using decimal_nonempty [of n] by (cases "decimal n") auto
  have dig: "\<And>c. c \<in> set (d # ds) \<Longrightarrow> is_digit c"
    using decimal_digits [of _ n] dec by simp
  then have d: "is_digit d" by simp
  have sk: "skip_ws (CHR '' '' # d # ds) = d # ds"
    using skip_ws_digit [OF d] by (simp add: ws1_def)
  have tw: "takeWhile is_digit (d # ds) = d # ds"
    using takeWhile_all [of "d # ds" is_digit "[]"] dig by simp
  have a: "map upper (take 15 (''Content-Length: '' @ d # ds)) = ''CONTENT-LENGTH:''"
    by (simp add: upper_def)
  have b: "drop 15 (''Content-Length: '' @ d # ds) = CHR '' '' # d # ds"
    by simp
  have "match_here (''Content-Length: '' @ d # ds) = Some (d # ds)"
    by (simp only: match_here_def a b sk tw Let_def) simp
  then show ?thesis by (simp add: dec)
qed

lemma header_no_CR: "CHR 0x0D \<notin> set (''Content-Length: '' @ decimal n)"
  using decimal_digits [of "CHR 0x0D" n] is_digit_not_CR [of "CHR 0x0D"] by auto

lemma length_sep: "length sep = 4"
  by (simp add: sep_def)

lemma tryParse_no_sep:
  "indexOf buf sep = None \<Longrightarrow> tryParseMessages rt buf p = ([], buf, p)"
  by (subst tryParseMessages.simps) simp

lemma tryParse_skip:
  "indexOf buf sep = Some idx \<Longrightarrow> header_match (take idx buf) = None \<Longrightarrow>
   tryParseMessages rt buf p = tryParseMessages rt (drop (idx + 4) buf) p"
  by (subst tryParseMessages.simps) (simp add: length_sep Let_def)

lemma tryParse_incomplete:
  "indexOf buf sep = Some idx \<Longrightarrow> header_match (take idx buf) = Some ds \<Longrightarrow>
   length buf < idx + 4 + parseInt10 ds \<Longrightarrow>
   tryParseMessages rt buf p = ([], buf, p)"
  by (subst tryParseMessages.simps) (simp add: length_sep Let_def)

lemma tryParse_complete:
  "indexOf buf sep = Some idx \<Longrightarrow> header_match (take idx buf) = Some ds \<Longrightarrow>
   idx + 4 + parseInt10 ds \<le> length buf \<Longrightarrow>
   tryParseMessages rt buf p =
     (case handle_frame rt p (take (parseInt10 ds) (drop (idx + 4) buf)) of
        (out, p') \<Rightarrow>
          (case tryParseMessages rt (drop (idx + 4 + parseInt10 ds) buf) p' of
             (outs, rest) \<Rightarrow> (out # outs, rest)))"
  by (subst tryParseMessages.simps) (simp add: length_sep Let_def)

lemma encode_eq:
  "encode rt v = (''Content-Length: '' @ decimal (length (JSON_stringify rt v))) @ sep @ JSON_stringify rt v"
  by (simp add: encode_def writeMessage_def Let_def)

lemma tryParse_frame:
  "tryParseMessages rt (encode rt v @ rest) p =
     (case handle_frame rt p (JSON_stringify rt v) of
        (out, p') \<Rightarrow>
          (case tryParseMessages rt rest p' of (outs, r) \<Rightarrow> (out # outs, r)))"
proof -
  define j where "j = JSON_stringify rt v"
  define h where "h = ''Content-Length: '' @ decimal (length j)"
  define buf where "buf = h @ sep @ j @ rest"
  have buf: "encode rt v @ rest = buf"
    by (simp add: encode_eq buf_def h_def j_def)
  have cr: "CHR 0x0D \<notin> set h"
    unfolding h_def by (rule header_no_CR)
  have idx: "indexOf buf sep = Some (length h)"
    unfolding buf_def using cr by (rule indexOf_sep_header)
  have "take (length h) buf = h" by (simp add: buf_def)
  then have hm: "header_match (take (length h) buf) = Some (decimal (length j))"
    by (simp only: h_def header_match_header)
  have len: "length h + 4 + parseInt10 (decimal (length j)) \<le> length buf"
    by (simp add: buf_def parseInt10_decimal length_sep)
  have pay: "take (parseInt10 (decimal (length j))) (drop (length h + 4) buf) = j"
    by (simp add: buf_def parseInt10_decimal length_sep)
  have rst: "drop (length h + 4 + parseInt10 (decimal (length j))) buf = rest"
    by (simp add: buf_def parseInt10_decimal length_sep)
  have "tryParseMessages rt buf p =
     (case handle_frame rt p j of
        (out, p') \<Rightarrow>
          (case tryParseMessages rt rest p' of (outs, r) \<Rightarrow> (out # outs, r)))"
    by (subst tryParse_complete [OF idx hm len]) (simp only: pay rst)
  then show ?thesis by (simp only: buf j_def)
qed

lemma tryParse_proper_prefix:
  assumes "a @ b = encode rt v" and "b \<noteq> []"
  shows "tryParseMessages rt a p = ([], a, p)"
proof -
  define j where "j = JSON_stringify rt v"
  define h where "h = ''Content-Length: '' @ decimal (length j)"
  have enc: "a @ b = h @ sep @ j"
    using assms(1) by (simp add: encode_eq h_def j_def)
  have cr: "CHR 0x0D \<notin> set h"
    unfolding h_def by (rule header_no_CR)
  show ?thesis
  proof (cases "length a < length h + 4")
    case True
    have "prefix a ((h @ sep) @ j)" using enc by (metis append.assoc prefixI)
    then have "prefix a (h @ sep)"
      using True by (auto simp: prefix_append length_sep)
    moreover have "a \<noteq> h @ sep" using True by (auto simp: length_sep)
    ultimately have "indexOf a sep = None"
      using cr by (simp add: indexOf_sep_proper_prefix)
    then show ?thesis by (rule tryParse_no_sep)
  next
    case False
    then have "a = take (length a) (h @ sep @ j)"
      using enc by (metis append_eq_conv_conj)
    with False have a: "a = h @ sep @ take (length a - length h - 4) j"
      by (simp add: length_sep)
    define j' where "j' = take (length a - length h - 4) j"
    have a': "a = h @ sep @ j'" using a by (simp add: j'_def)
    have "length (a @ b) = length (h @ sep @ j)" using enc by simp
    with assms(2) a' have short: "length j' < length j" by (cases b) auto
    have idx: "indexOf a sep = Some (length h)"
      unfolding a' using cr by (rule indexOf_sep_header)
    have "take (length h) a = h" by (subst a') simp
    then have hm: "header_match (take (length h) a) = Some (decimal (length j))"
      by (simp only: h_def header_match_header)
    have "length a < length h + 4 + parseInt10 (decimal (length j))"
      using short by (simp add: a' parseInt10_decimal length_sep)
    with idx hm show ?thesis by (rule tryParse_incomplete)
  qed
qed

section \<open>A frame whose payload is not JSON\<close>

text \<open>
  Claim C4. When the buffer starts with a complete frame (a header block with a
  \<open>Content-Length\<close> and at least that many bytes after the separator) whose payload
  \<open>JSON.parse\<close> rejects, the loop reports the failure as an outcome instead of raising,
  consumes exactly that frame, and goes on: its outcomes are the failure followed by the
  outcomes of decoding the bytes after the frame, with the table it had.
\<close>

theorem parse_failure_is_contained:
  assumes "indexOf buf sep = Some idx"
    and "header_match (take idx buf) = Some ds"
    and "idx + length sep + parseInt10 ds \<le> length buf"
    and "JSON_parse rt (take (parseInt10 ds) (drop (idx + length sep) buf)) = None"
  shows "tryParseMessages rt buf p =
           (case tryParseMessages rt (drop (idx + length sep + parseInt10 ds) buf) p of
              (outs, rest) \<Rightarrow> (Failed SyntaxError # outs, rest))"
proof -
  from assms(3) have len: "idx + 4 + parseInt10 ds \<le> length buf"
    by (simp add: length_sep)
  from assms(4) have "handle_frame rt p (take (parseInt10 ds) (drop (idx + 4) buf)) = (Failed SyntaxError, p)"
    by (simp add: handle_frame_def length_sep)
  then show ?thesis
    by (subst tryParse_complete [OF assms(1) assms(2) len]) (simp add: length_sep)
qed

theorem parse_failure_is_contained_witness:
  "tryParseMessages node (''Content-Length: 5'' @ sep @ ''{oops'' @ encode node (rpc_reply (JNum 1))) Map.empty =
     (case tryParseMessages node (encode node (rpc_reply (JNum 1))) Map.empty of
        (outs, rest) \<Rightarrow> (Failed SyntaxError # outs, rest))
   \<and> fst (tryParseMessages node (encode node (rpc_reply (JNum 1))) Map.empty) =
        [Unsolicited (rpc_reply (JNum 1))]"
proof -
  define buf where "buf = ''Content-Length: 5'' @ sep @ ''{oops'' @ encode node (rpc_reply (JNum 1))"
  have h1: "indexOf buf sep = Some 17" unfolding buf_def by code_simp
  have h2: "header_match (take 17 buf) = Some ''5''" unfolding buf_def by code_simp
  have h3: "17 + length sep + parseInt10 ''5'' \<le> length buf" unfolding buf_def by code_simp
  have h4: "JSON_parse node (take (parseInt10 ''5'') (drop (17 + length sep) buf)) = None"
    unfolding buf_def by code_simp
  have r: "drop (17 + length sep + parseInt10 ''5'') buf = encode node (rpc_reply (JNum 1))"
    unfolding buf_def by code_simp
  have v: "fst (tryParseMessages node (encode node (rpc_reply (JNum 1))) Map.empty) =
        [Unsolicited (rpc_reply (JNum 1))]"
    by code_simp
  from parse_failure_is_contained [OF h1 h2 h3 h4, of Map.empty] r v
  show ?thesis by (simp add: buf_def)
qed

section \<open>Round trip of the frame codec\<close>

text \<open>
  Frames written by \<open>writeMessage\<close> and concatenated are decoded one by one, in order, and
  nothing is left in the buffer, for the values that the runtime's JSON functions round-trip
  and on which the dispatch of lines 66 to 72 does not throw. A proper prefix of a frame
  produces nothing and is kept whole.
\<close>

lemma dispatch_deliverable:
  "deliverable rt v \<Longrightarrow> decoded (fst (dispatch rt p v)) = [v]"
  by (auto simp: deliverable_def dispatch_def split: option.splits)

lemma handle_frame_deliverable:
  "JSON_parse rt (JSON_stringify rt v) = Some v \<Longrightarrow> deliverable rt v \<Longrightarrow>
   decoded (fst (handle_frame rt p (JSON_stringify rt v))) = [v]"
  by (simp add: handle_frame_def dispatch_deliverable)

lemma roundtrip_frames:
  assumes "\<And>v. v \<in> set vs \<Longrightarrow> JSON_parse rt (JSON_stringify rt v) = Some v \<and> deliverable rt v"
  shows "concat (map decoded (fst (tryParseMessages rt (concat (map (encode rt) vs)) p))) = vs
         \<and> fst (snd (tryParseMessages rt (concat (map (encode rt) vs)) p)) = []"
  using assms
proof (induction vs arbitrary: p)
  case Nil
  have "indexOf [] sep = None" by (simp add: sep_def)
  then show ?case by (simp add: tryParse_no_sep)
next
  case (Cons v vs)
  obtain out p' where hf: "handle_frame rt p (JSON_stringify rt v) = (out, p')"
    by (cases "handle_frame rt p (JSON_stringify rt v)")
  from Cons.prems [of v] have "decoded (fst (handle_frame rt p (JSON_stringify rt v))) = [v]"
    by (simp add: handle_frame_deliverable)
  with hf have out: "decoded out = [v]" by simp
  from Cons.IH [of p'] Cons.prems
  have ih: "concat (map decoded (fst (tryParseMessages rt (concat (map (encode rt) vs)) p'))) = vs"
    "fst (snd (tryParseMessages rt (concat (map (encode rt) vs)) p')) = []"
    by simp_all
  have "tryParseMessages rt (concat (map (encode rt) (v # vs))) p =
        (case tryParseMessages rt (concat (map (encode rt) vs)) p' of
           (outs, r) \<Rightarrow> (out # outs, r))"
    using tryParse_frame [of rt v "concat (map (encode rt) vs)" p] hf by simp
  with out ih show ?case by (simp add: split_beta)
qed

lemma decode_all_roundtrip:
  assumes "\<And>v. v \<in> set vs \<Longrightarrow> JSON_parse rt (JSON_stringify rt v) = Some v \<and> deliverable rt v"
  shows "decode_all rt (concat (map (encode rt) vs)) = (vs, [])"
  using roundtrip_frames [of vs rt Map.empty] assms
  by (simp add: decode_all_def split_beta)

lemma on_data_proper_prefix:
  assumes "readBuffer st = []" and "a @ b = encode rt v" and "b \<noteq> []"
  shows "on_data rt a st = ([], st\<lparr>readBuffer := a\<rparr>)"
    and "on_data rt b (st\<lparr>readBuffer := a\<rparr>) = on_data rt (encode rt v) st"
proof -
  from tryParse_proper_prefix [OF assms(2) assms(3)]
  have "tryParseMessages rt a (pending st) = ([], a, pending st)" .
  with assms(1) show "on_data rt a st = ([], st\<lparr>readBuffer := a\<rparr>)"
    by (simp add: on_data_def)
  from assms(1) assms(2) show "on_data rt b (st\<lparr>readBuffer := a\<rparr>) = on_data rt (encode rt v) st"
    by (simp add: on_data_def)
qed

section \<open>The value \<open>null\<close>\<close>

text \<open>
  Claim C1. The round trip \<open>decode_all (encode V) = ([V], [])\<close> is stated for every
  JSON-serializable \<open>V\<close>. For \<open>V = null\<close>, which \<open>JSON.parse\<close> and
  \<open>JSON.stringify\<close> round-trip, the loop decodes the frame, then \<open>msg.id\<close> throws a
  TypeError inside the \<open>try\<close> block, and the \<open>catch\<close> reports a JSON parse error: no
  value is handed on. (Lemma \<open>decode_all_roundtrip\<close> is the round trip for the other
  values.)
\<close>

theorem null_frame_is_not_decoded:
  "decode_all node (encode node JNull) = ([], [])
   \<and> fst (tryParseMessages node (encode node JNull) Map.empty) = [Failed TypeError]
   \<and> JSON_parse node (JSON_stringify node JNull) = Some JNull"
  by code_simp

text \<open>
  Claim C2. An incomplete frame is kept whole and produces nothing (lemmas
  \<open>tryParse_incomplete\<close> and \<open>on_data_proper_prefix\<close>), and the second chunk completes it;
  but for \<open>V = null\<close> the completed frame is reported as a parse error, so the two chunks
  of \<open>encode null\<close> never yield \<open>[null]\<close>.
\<close>

theorem null_frame_in_two_chunks:
  "encode node JNull = ''Content-Length: 4'' @ sep @ ''nu'' @ ''ll''
   \<and> fst (run node [StdoutData (''Content-Length: 4'' @ sep @ ''nu''), StdoutData ''ll''] initial)
       = [ConsoleError TypeError]
   \<and> readBuffer (snd (run node [StdoutData (''Content-Length: 4'' @ sep @ ''nu''), StdoutData ''ll''] initial)) = []"
  by code_simp

text \<open>
  Claim C3. A header block without \<open>Content-Length\<close> is skipped past its separator
  without an error (lemma \<open>tryParse_skip\<close>); but when the valid frame that follows
  carries \<open>null\<close>, its value is not yielded: the only outcome is the TypeError.
\<close>

theorem null_frame_after_garbage:
  "indexOf (''X-Junk: 1'' @ sep @ encode node JNull) sep = Some (length ''X-Junk: 1'')
   \<and> header_match ''X-Junk: 1'' = None
   \<and> decode_all node (''X-Junk: 1'' @ sep @ encode node JNull) = ([], [])
   \<and> fst (tryParseMessages node (''X-Junk: 1'' @ sep @ encode node JNull) Map.empty) = [Failed TypeError]"
  by code_simp

section \<open>The declared length\<close>

lemma tryParse_awaits:
  assumes "length payload < n"
  shows "tryParseMessages rt (''Content-Length: '' @ decimal n @ sep @ payload) p =
           ([], ''Content-Length: '' @ decimal n @ sep @ payload, p)"
proof -
  define h where "h = ''Content-Length: '' @ decimal n"
  define buf where "buf = h @ sep @ payload"
  have buf: "''Content-Length: '' @ decimal n @ sep @ payload = buf"
    by (simp add: buf_def h_def)
  have cr: "CHR 0x0D \<notin> set h"
    unfolding h_def by (rule header_no_CR)
  have idx: "indexOf buf sep = Some (length h)"
    unfolding buf_def using cr by (rule indexOf_sep_header)
  have "take (length h) buf = h" by (simp add: buf_def)
  then have hm: "header_match (take (length h) buf) = Some (decimal n)"
    by (simp only: h_def header_match_header)
  have "length buf < length h + 4 + parseInt10 (decimal n)"
    using assms by (simp add: buf_def parseInt10_decimal length_sep)
  with idx hm have "tryParseMessages rt buf p = ([], buf, p)"
    by (rule tryParse_incomplete)
  then show ?thesis by (simp only: buf)
qed

lemma on_data_awaits:
  assumes "readBuffer st = ''Content-Length: '' @ decimal n @ sep @ got"
    and "length got + length chunk < n"
  shows "on_data rt chunk st = ([], st\<lparr>readBuffer := readBuffer st @ chunk\<rparr>)"
proof -
  from assms(2) have "length (got @ chunk) < n" by simp
  from tryParse_awaits [OF this, of rt "pending st"] assms(1)
  have "tryParseMessages rt (readBuffer st @ chunk) (pending st) =
          ([], readBuffer st @ chunk, pending st)"
    by simp
  then show ?thesis by (simp add: on_data_def)
qed

lemma run_awaits:
  assumes "running st"
    and "readBuffer st = ''Content-Length: '' @ decimal n @ sep @ got"
    and "length got + length (concat chunks) < n"
  shows "run rt (map StdoutData chunks) st = ([], st\<lparr>readBuffer := readBuffer st @ concat chunks\<rparr>)"
  using assms
proof (induction chunks arbitrary: st got)
  case Nil
  then show ?case by (simp add: run_def)
next
  case (Cons c cs)
  let ?st' = "st\<lparr>readBuffer := readBuffer st @ c\<rparr>"
  from Cons.prems have "length got + length c < n" by simp
  from on_data_awaits [OF Cons.prems(2) this]
  have od: "on_data rt c st = ([], ?st')" .
  have "run rt (map StdoutData cs) ?st' = ([], ?st'\<lparr>readBuffer := readBuffer ?st' @ concat cs\<rparr>)"
    using Cons.prems by (intro Cons.IH [of ?st' "got @ c"]) simp_all
  with od Cons.prems(1) show ?case
    by (simp add: run_def step_def)
qed

lemma decimal_example: "decimal 1000000000000 = ''1000000000000''"
  by (simp add: decimal.simps digit_char_def)

text \<open>
  Claim C9, amended. The header written for a length \<open>n\<close> is read back as \<open>n\<close>: the
  digits are taken in base 10, and no sign is accepted. There is no maximum message size:
  whatever \<open>n\<close> a header declares, while fewer than \<open>n\<close> payload bytes have arrived
  every chunk is appended to the buffer and nothing is reported.
\<close>

theorem declared_length_is_awaited:
  assumes "running st"
    and "readBuffer st = ''Content-Length: '' @ decimal n @ sep @ got"
    and "length got + length (concat chunks) < n"
  shows "header_match (''Content-Length: '' @ decimal n) = Some (decimal n)
         \<and> parseInt10 (decimal n) = n
         \<and> run rt (map StdoutData chunks) st =
             ([], st\<lparr>readBuffer := readBuffer st @ concat chunks\<rparr>)"
  by (intro conjI header_match_header parseInt10_decimal run_awaits [OF assms])

theorem declared_length_is_awaited_witness:
  "run node [StdoutData ''defg'', StdoutData ''hi'']
       (initial\<lparr>readBuffer := ''Content-Length: 1000000000000'' @ sep @ ''abc''\<rparr>) =
     ([], initial\<lparr>readBuffer := ''Content-Length: 1000000000000'' @ sep @ ''abcdefghi''\<rparr>)
   \<and> parseInt10 ''1000000000000'' = 1000000000000"
proof -
  let ?st = "initial\<lparr>readBuffer := ''Content-Length: 1000000000000'' @ sep @ ''abc''\<rparr>"
  have h1: "running ?st" by (simp add: initial_def)
  have h2: "readBuffer ?st = ''Content-Length: '' @ decimal 1000000000000 @ sep @ ''abc''"
    by (simp add: decimal_example)
  have h3: "length ''abc'' + length (concat [''defg'', ''hi'']) < (1000000000000 :: nat)"
    by simp
  from declared_length_is_awaited [OF h1 h2 h3, of node]
  show ?thesis by (simp add: decimal_example)
qed

text \<open>
  A header that declares \<open>10^12\<close> bytes is not treated as a protocol error: the decoder
  reports nothing and keeps the bytes.
\<close>

theorem no_maximum_length_counterexample:
  "on_data node (''Content-Length: 1000000000000'' @ sep @ ''abc'') initial =
     ([], initial\<lparr>readBuffer := ''Content-Length: 1000000000000'' @ sep @ ''abc''\<rparr>)"
proof -
  have "readBuffer initial = []" by (simp add: initial_def)
  moreover have "tryParseMessages node (''Content-Length: '' @ decimal 1000000000000 @ sep @ ''abc'') (pending initial)
      = ([], ''Content-Length: '' @ decimal 1000000000000 @ sep @ ''abc'', pending initial)"
    by (rule tryParse_awaits) simp
  ultimately show ?thesis
    by (simp add: on_data_def decimal_example)
qed

section \<open>Runs of the bridge\<close>

lemma tryParse_nil: "tryParseMessages rt [] p = ([], [], p)"
  by (rule tryParse_no_sep) (simp add: sep_def)

lemma tryParse_one_frame:
  "tryParseMessages rt (encode rt v) p =
     (case handle_frame rt p (JSON_stringify rt v) of (out, p') \<Rightarrow> ([out], [], p'))"
  using tryParse_frame [of rt v "[]" p] by (simp add: tryParse_nil split_beta)

lemma run_Nil: "run rt [] st = ([], st)"
  by (simp add: run_def)

lemma run_Cons:
  "run rt (ev # evs) st =
     (case step rt ev st of (es, st') \<Rightarrow>
        (case run rt evs st' of (es', st'') \<Rightarrow> (es @ es', st'')))"
  by (simp add: run_def)

lemma run_stopped: "\<not> running st \<Longrightarrow> run rt evs st = ([], st)"
  by (induction evs) (simp_all add: run_Nil run_Cons step_def)

lemmas bridge_defs = step_def post_rpc_def on_exit_def on_data_def elapse_def fire_def
  settle_def deliver_def get_health_def initial_def node_def rpc_call_def rpc_reply_def
  error_body_def timeout_body_def show_int_def safe_integer_def decimal.simps digit_char_def Let_def
  dispatch_def handle_frame_def run_Nil run_Cons

lemma node_roundtrip_reply1:
  "JSON_parse node (JSON_stringify node (rpc_reply (JNum 1))) = Some (rpc_reply (JNum 1))"
  by code_simp

text \<open>
  Claim C8, amended. When the subprocess exits, with any code, the handler logs the code
  and ends the bridge's own process with status 1. It rejects no pending entry and sends
  no response; after it no event is handled, so no new call is accepted.
\<close>

theorem exit_stops_the_process:
  assumes "running st"
  shows "step rt (McpExit code) st = ([ExitLogged code, ProcessExit 1], st\<lparr>running := False\<rparr>)
         \<and> run rt evs (st\<lparr>running := False\<rparr>) = ([], st\<lparr>running := False\<rparr>)"
  using assms by (simp add: step_def on_exit_def run_stopped)

theorem exit_stops_the_process_witness:
  "run node [McpExit (Some 0), PostRpc (rpc_call (JNum 2) ''b'')]
       (snd (run node [PostRpc (rpc_call (JNum 1) ''a'')] initial)) =
     ([ExitLogged (Some 0), ProcessExit 1],
      (snd (run node [PostRpc (rpc_call (JNum 1) ''a'')] initial))\<lparr>running := False\<rparr>)"
proof -
  let ?st = "snd (run node [PostRpc (rpc_call (JNum 1) ''a'')] initial)"
  have h: "running ?st" by (simp add: bridge_defs)
  from exit_stops_the_process [OF h, of node "Some 0" "[PostRpc (rpc_call (JNum 2) ''b'')]"]
  show ?thesis by (simp add: run_Cons)
qed

text \<open>
  With request 0 registered under the key \<open>1\<close>, the exit of the subprocess produces the
  log line and the process exit only: request 0 gets no response, its promise stays
  unsettled and its entry stays in the table.
\<close>

theorem exit_rejects_nobody_counterexample:
  "fst (run node [PostRpc (rpc_call (JNum 1) ''a''), McpExit (Some 0)] initial) =
     map StdinWrite (writeMessage node (JObj [(''jsonrpc'', JStr ''2.0''), (''id'', JNum 1), (''method'', JStr ''a'')]))
       @ [ExitLogged (Some 0), ProcessExit 1]
   \<and> pending (snd (run node [PostRpc (rpc_call (JNum 1) ''a''), McpExit (Some 0)] initial)) ''1'' = Some 0
   \<and> settled (snd (run node [PostRpc (rpc_call (JNum 1) ''a''), McpExit (Some 0)] initial)) = {}"
  by (simp add: bridge_defs)

lemma node_token: "BRIDGE_TOKEN node = ''s3cret''"
  by (simp add: node_def)

lemma rpc_reply_id: "get_prop (rpc_reply i) ''id'' = Some i" "rpc_reply i \<noteq> JNull"
  by (simp_all add: rpc_reply_def)

lemmas trace_defs = step_def post_rpc_def on_exit_def on_data_def elapse_def fire_def
  settle_def deliver_def get_health_def initial_def rpc_call_def
  error_body_def timeout_body_def show_int_def safe_integer_def decimal.simps digit_char_def Let_def
  dispatch_def handle_frame_def run_Nil run_Cons node_token rpc_reply_id tryParse_one_frame

lemma timer_of_live_entry:
  assumes "pending st k = Some r" and "r \<notin> settled st"
  shows "fire (due, r, k) st =
           ([Response r 504 timeout_body],
            st\<lparr>pending := (pending st)(k := None), settled := insert r (settled st)\<rparr>)"
  using assms by (simp add: fire_def settle_def)

text \<open>
  Claim C7. The timer of a request is not cancelled when the request is resolved, and its
  callback tests the key, not the entry. Request 0 registers id 1 at time 0 and is
  answered at 10 s; request 1 registers id 1 again at 20 s. At 250 s the timer of request
  0 finds the entry of request 1 under the key, deletes it and rejects the settled promise
  of request 0. At 270 s the timer of request 1 finds no entry. Request 1 has received no
  reply within its deadline, its entry was removed 20 s early, and it never receives the
  504 response. (When a timer finds the entry of its own request, the entry is removed
  and the request is answered 504: lemma \<open>timer_of_live_entry\<close>.)
\<close>

theorem stale_timer_drops_later_request:
  "fst (run node reused_id_trace initial) =
     map StdinWrite (writeMessage node (JObj [(''jsonrpc'', JStr ''2.0''), (''id'', JNum 1), (''method'', JStr ''a'')]))
     @ [Response 0 200 (rpc_reply (JNum 1))]
     @ map StdinWrite (writeMessage node (JObj [(''jsonrpc'', JStr ''2.0''), (''id'', JNum 1), (''method'', JStr ''b'')]))
   \<and> pending (snd (run node reused_id_trace initial)) ''1'' = None
   \<and> timers (snd (run node reused_id_trace initial)) = []
   \<and> settled (snd (run node reused_id_trace initial)) = {0}
   \<and> clock (snd (run node reused_id_trace initial)) = 270000"
  by (simp add: reused_id_trace_def trace_defs node_roundtrip_reply1)

section \<open>Registration, resolution and expiry\<close>

lemma settle_fields:
  "pending (snd (settle r c b st)) = pending st"
  "requests (snd (settle r c b st)) = requests st"
  "running (snd (settle r c b st)) = running st"
  "timers (snd (settle r c b st)) = timers st"
  "clock (snd (settle r c b st)) = clock st"
  by (simp_all add: settle_def)

lemma deliver_fields:
  "pending (snd (deliver out st)) = pending st"
  "requests (snd (deliver out st)) = requests st"
  "running (snd (deliver out st)) = running st"
  "timers (snd (deliver out st)) = timers st"
  "clock (snd (deliver out st)) = clock st"
  by (simp_all add: deliver_def settle_fields split: outcome.splits)

lemma run_all_deliver_fields:
  "pending (snd (run_all deliver outs st)) = pending st"
  "requests (snd (run_all deliver outs st)) = requests st"
  "running (snd (run_all deliver outs st)) = running st"
  "timers (snd (run_all deliver outs st)) = timers st"
  "clock (snd (run_all deliver outs st)) = clock st"
  by (induction outs arbitrary: st; simp add: split_beta deliver_fields)+

lemma fire_fields:
  "pending (snd (fire (d, r, k) st)) = (pending st)(k := None)"
  "requests (snd (fire t st)) = requests st"
  "running (snd (fire t st)) = running st"
  "timers (snd (fire t st)) = timers st"
  "clock (snd (fire t st)) = clock st"
  by (auto simp: fire_def settle_fields split: prod.splits)

lemma run_all_fire_fields:
  "requests (snd (run_all fire ts st)) = requests st"
  "running (snd (run_all fire ts st)) = running st"
  "timers (snd (run_all fire ts st)) = timers st"
  "clock (snd (run_all fire ts st)) = clock st"
  by (induction ts arbitrary: st; simp add: split_beta fire_fields)+

lemma run_all_fire_pending:
  "pending (snd (run_all fire ts st)) k =
     (if k \<in> (\<lambda>t. snd (snd t)) ` set ts then None else pending st k)"
proof (induction ts arbitrary: st)
  case Nil
  show ?case by simp
next
  case (Cons t ts)
  obtain d r k' where t: "t = (d, r, k')" by (cases t)
  show ?case
    by (simp add: split_beta Cons.IH t fire_fields)
qed

lemma elapse_expires:
  assumes "(due, r, k) \<in> set (timers st)" and "due \<le> clock st + dt"
  shows "pending (snd (elapse dt st)) k = None"
    and "requests (snd (elapse dt st)) = requests st"
    and "running (snd (elapse dt st)) = running st"
proof -
  from assms have "k \<in> (\<lambda>t. snd (snd t)) ` set (filter (\<lambda>t. fst t \<le> clock st + dt) (timers st))"
    by force
  then show "pending (snd (elapse dt st)) k = None"
    by (simp add: elapse_def Let_def run_all_fire_pending)
  show "requests (snd (elapse dt st)) = requests st"
    by (simp add: elapse_def Let_def run_all_fire_fields)
  show "running (snd (elapse dt st)) = running st"
    by (simp add: elapse_def Let_def run_all_fire_fields)
qed

lemma dispatch_matching:
  assumes "get_prop msg ''id'' = Some i" and "i \<noteq> JNull" and "js_String rt i = Some k"
  shows "dispatch rt p msg =
           (case p k of None \<Rightarrow> (Unsolicited msg, p) | Some h \<Rightarrow> (Resolved k h msg, p(k := None)))"
proof -
  from assms(1) have "msg \<noteq> JNull" by (cases msg) auto
  with assms show ?thesis by (simp add: dispatch_def)
qed

lemma on_data_reply:
  assumes "readBuffer st = []"
    and "JSON_parse rt (JSON_stringify rt msg) = Some msg"
    and "get_prop msg ''id'' = Some i" and "i \<noteq> JNull" and "js_String rt i = Some k"
  shows "pending (snd (on_data rt (encode rt msg) st)) k = None"
    and "requests (snd (on_data rt (encode rt msg) st)) = requests st"
    and "running (snd (on_data rt (encode rt msg) st)) = running st"
  using assms
  by (auto simp: on_data_def tryParse_one_frame handle_frame_def dispatch_matching
      run_all_deliver_fields deliver_fields split_beta split: option.splits)

lemma post_rpc_duplicate:
  assumes "authorization req = Some (''Bearer '' @ BRIDGE_TOKEN rt)"
    and "body req = Some (JObj ps)"
    and "map_of ps ''jsonrpc'' = Some (JStr ''2.0'')"
    and "map_of ps ''id'' = Some i" and "i \<noteq> JNull" and "js_String rt i = Some k"
    and "pending st k \<noteq> None"
  shows "post_rpc rt req st =
           ([Response (requests st) 409 (error_body ''duplicate id in flight'')],
            st\<lparr>requests := Suc (requests st)\<rparr>)"
  using assms by (simp add: post_rpc_def Let_def)

lemma post_rpc_registers:
  assumes "authorization req = Some (''Bearer '' @ BRIDGE_TOKEN rt)"
    and "body req = Some (JObj ps)"
    and "map_of ps ''jsonrpc'' = Some (JStr ''2.0'')"
    and "map_of ps ''id'' = Some i" and "i \<noteq> JNull" and "js_String rt i = Some k"
    and "pending st k = None"
  shows "post_rpc rt req st =
           (map StdinWrite (writeMessage rt (JObj ps)),
            st\<lparr>requests := Suc (requests st),
               pending := (pending st)(k \<mapsto> requests st),
               timers := timers st @ [(clock st + 250000, requests st, k)]\<rparr>)"
  using assms by (simp add: post_rpc_def Let_def)

text \<open>
  Claim C5. The table is a map from the string form of the id, so it holds at most one
  entry per key. For an authorised JSON-RPC request whose id has the string form \<open>k\<close>:
  while \<open>k\<close> is pending the request is answered 409 and neither the table, the timers
  nor the subprocess input change; while \<open>k\<close> is not pending the request is written to the
  subprocess and registered under \<open>k\<close>. After a reply with that id has been decoded, or
  after a timer set for \<open>k\<close> has come due, \<open>k\<close> is free and the same request registers.
\<close>

theorem one_entry_per_id:
  assumes "running st"
    and "authorization req = Some (''Bearer '' @ BRIDGE_TOKEN rt)"
    and "body req = Some (JObj ps)"
    and "map_of ps ''jsonrpc'' = Some (JStr ''2.0'')"
    and "map_of ps ''id'' = Some i" and "i \<noteq> JNull" and "js_String rt i = Some k"
  shows "(pending st k \<noteq> None \<longrightarrow>
            step rt (PostRpc req) st =
              ([Response (requests st) 409 (error_body ''duplicate id in flight'')],
               st\<lparr>requests := Suc (requests st)\<rparr>))
       \<and> (pending st k = None \<longrightarrow>
            step rt (PostRpc req) st =
              (map StdinWrite (writeMessage rt (JObj ps)),
               st\<lparr>requests := Suc (requests st),
                  pending := (pending st)(k \<mapsto> requests st),
                  timers := timers st @ [(clock st + 250000, requests st, k)]\<rparr>))
       \<and> (\<forall>msg i' h. readBuffer st = [] \<and> pending st k = Some h
              \<and> JSON_parse rt (JSON_stringify rt msg) = Some msg
              \<and> get_prop msg ''id'' = Some i' \<and> i' \<noteq> JNull \<and> js_String rt i' = Some k \<longrightarrow>
            pending (snd (run rt [StdoutData (encode rt msg), PostRpc req] st)) k
              = Some (requests st))
       \<and> (\<forall>dt due r. (due, r, k) \<in> set (timers st) \<and> due \<le> clock st + dt \<longrightarrow>
            pending (snd (run rt [Elapse dt, PostRpc req] st)) k = Some (requests st))"
proof (intro conjI impI allI)
  assume "pending st k \<noteq> None"
  from post_rpc_duplicate [OF assms(2-7) this] assms(1)
  show "step rt (PostRpc req) st =
          ([Response (requests st) 409 (error_body ''duplicate id in flight'')],
           st\<lparr>requests := Suc (requests st)\<rparr>)"
    by (simp add: step_def)
next
  assume "pending st k = None"
  from post_rpc_registers [OF assms(2-7) this] assms(1)
  show "step rt (PostRpc req) st =
          (map StdinWrite (writeMessage rt (JObj ps)),
           st\<lparr>requests := Suc (requests st),
              pending := (pending st)(k \<mapsto> requests st),
              timers := timers st @ [(clock st + 250000, requests st, k)]\<rparr>)"
    by (simp add: step_def)
next
  fix msg i' h
  assume a: "readBuffer st = [] \<and> pending st k = Some h
              \<and> JSON_parse rt (JSON_stringify rt msg) = Some msg
              \<and> get_prop msg ''id'' = Some i' \<and> i' \<noteq> JNull \<and> js_String rt i' = Some k"
  define st1 where "st1 = snd (on_data rt (encode rt msg) st)"
  from a have st1: "pending st1 k = None" "requests st1 = requests st" "running st1"
    using on_data_reply [of st rt msg i' k] assms(1) by (simp_all add: st1_def)
  from post_rpc_registers [OF assms(2-7) st1(1)] st1
  have "pending (snd (post_rpc rt req st1)) k = Some (requests st)" by simp
  with st1(3) assms(1)
  show "pending (snd (run rt [StdoutData (encode rt msg), PostRpc req] st)) k = Some (requests st)"
    by (simp add: run_Cons run_Nil step_def split_beta st1_def)
next
  fix dt due r
  assume a: "(due, r, k) \<in> set (timers st) \<and> due \<le> clock st + dt"
  define st1 where "st1 = snd (elapse dt st)"
  from a have st1: "pending st1 k = None" "requests st1 = requests st" "running st1"
    using elapse_expires [of due r k st dt] assms(1) by (simp_all add: st1_def)
  from post_rpc_registers [OF assms(2-7) st1(1)] st1
  have "pending (snd (post_rpc rt req st1)) k = Some (requests st)" by simp
  with st1(3) assms(1)
  show "pending (snd (run rt [Elapse dt, PostRpc req] st)) k = Some (requests st)"
    by (simp add: run_Cons run_Nil step_def split_beta st1_def)
qed

lemma node_roundtrip_reply7:
  "JSON_parse node (JSON_stringify node (rpc_reply (JNum 7))) = Some (rpc_reply (JNum 7))"
  by code_simp

lemma show_int_7: "show_int 7 = ''7''"
  by (simp add: show_int_def decimal.simps digit_char_def)

theorem one_entry_per_id_witness:
  "step node (PostRpc (rpc_call (JStr ''7'') ''b''))
        (snd (run node [PostRpc (rpc_call (JNum 7) ''a'')] initial)) =
     ([Response 1 409 (error_body ''duplicate id in flight'')],
      (snd (run node [PostRpc (rpc_call (JNum 7) ''a'')] initial))\<lparr>requests := 2\<rparr>)
   \<and> pending (snd (run node [StdoutData (encode node (rpc_reply (JNum 7))),
                              PostRpc (rpc_call (JStr ''7'') ''b'')]
                    (snd (run node [PostRpc (rpc_call (JNum 7) ''a'')] initial)))) ''7'' = Some 1
   \<and> pending (snd (run node [Elapse 250000, PostRpc (rpc_call (JStr ''7'') ''b'')]
                    (snd (run node [PostRpc (rpc_call (JNum 7) ''a'')] initial)))) ''7'' = Some 1"
proof -
  let ?st = "snd (run node [PostRpc (rpc_call (JNum 7) ''a'')] initial)"
  let ?ps = "[(''jsonrpc'', JStr ''2.0''), (''id'', JStr ''7''), (''method'', JStr ''b'')]"
  have st: "running ?st" "pending ?st ''7'' = Some 0" "requests ?st = 1" "readBuffer ?st = []"
    "timers ?st = [(250000, 0, ''7'')]" "clock ?st = 0"
    by (simp_all add: trace_defs)
  have h2: "authorization (rpc_call (JStr ''7'') ''b'') = Some (''Bearer '' @ BRIDGE_TOKEN node)"
    by (simp add: rpc_call_def node_token)
  have h3: "body (rpc_call (JStr ''7'') ''b'') = Some (JObj ?ps)"
    by (simp add: rpc_call_def)
  have h4: "map_of ?ps ''jsonrpc'' = Some (JStr ''2.0'')" by simp
  have h5: "map_of ?ps ''id'' = Some (JStr ''7'')" by simp
  have h6: "JStr ''7'' \<noteq> JNull" by simp
  have h7: "js_String node (JStr ''7'') = Some ''7''" by simp
  note inst = one_entry_per_id [OF st(1) h2 h3 h4 h5 h6 h7]
  from inst have a: "step node (PostRpc (rpc_call (JStr ''7'') ''b'')) ?st =
     ([Response 1 409 (error_body ''duplicate id in flight'')], ?st\<lparr>requests := 2\<rparr>)"
    using st(2,3) by simp
  from inst have "readBuffer ?st = [] \<and> pending ?st ''7'' = Some 0
      \<and> JSON_parse node (JSON_stringify node (rpc_reply (JNum 7))) = Some (rpc_reply (JNum 7))
      \<and> get_prop (rpc_reply (JNum 7)) ''id'' = Some (JNum 7) \<and> JNum 7 \<noteq> JNull
      \<and> js_String node (JNum 7) = Some ''7'' \<longrightarrow>
      pending (snd (run node [StdoutData (encode node (rpc_reply (JNum 7))),
                              PostRpc (rpc_call (JStr ''7'') ''b'')] ?st)) ''7'' = Some (requests ?st)"
    by blast
  then have b: "pending (snd (run node [StdoutData (encode node (rpc_reply (JNum 7))),
                              PostRpc (rpc_call (JStr ''7'') ''b'')] ?st)) ''7'' = Some 1"
    using st(2,3,4) node_roundtrip_reply7 show_int_7 by (simp add: rpc_reply_id safe_integer_def)
  from inst have "(250000, 0, ''7'') \<in> set (timers ?st) \<and> 250000 \<le> clock ?st + 250000 \<longrightarrow>
      pending (snd (run node [Elapse 250000, PostRpc (rpc_call (JStr ''7'') ''b'')] ?st)) ''7''
        = Some (requests ?st)"
    by blast
  then have c: "pending (snd (run node [Elapse 250000, PostRpc (rpc_call (JStr ''7'') ''b'')] ?st)) ''7'' = Some 1"
    using st(3,5,6) by simp
  from a b c show ?thesis by blast
qed

lemma safe_integer_of_int: "safe_integer (of_int n) = (\<bar>n\<bar> < 2 ^ 53)"
proof -
  have "(\<bar>of_int n :: rat\<bar> < 2 ^ 53) = (\<bar>n\<bar> < 2 ^ 53)"
    by (simp only: of_int_abs [symmetric] of_int_less_numeral_power_cancel_iff)
  then show ?thesis by (simp add: safe_integer_def)
qed

lemma js_String_number: "\<exists>k. js_String rt (JNum x) = Some k"
  by simp

text \<open>
  Claim C6. The table is keyed by \<open>String(id)\<close>, at registration and at resolution, and
  nothing else of the id is compared: a decoded message whose id has the string form \<open>k\<close>
  resolves the entry pending under \<open>k\<close> and takes it out of the table, whatever the type
  of the id that registered it, and is unsolicited when no entry is pending under \<open>k\<close>.
  A safe integer \<open>n\<close> (magnitude below \<open>2^53\<close>) and the string of its decimal digits have
  the same string form, so a message with the numeric id resolves the registration made
  under the string. With a number or a string as id neither the dispatch of a decoded
  message nor the HTTP handler throws.
\<close>

theorem id_compared_as_string:
  "(\<bar>n\<bar> < 2 ^ 53 \<longrightarrow>
      js_String rt (JNum (of_int n)) = Some (show_int n)
      \<and> js_String rt (JStr (show_int n)) = Some (show_int n))
   \<and> (get_prop msg ''id'' = Some i \<and> i \<noteq> JNull \<and> js_String rt i = Some k \<and> p k = Some h \<longrightarrow>
        dispatch rt p msg = (Resolved k h msg, p(k := None)))
   \<and> (get_prop msg ''id'' = Some i \<and> i \<noteq> JNull \<and> js_String rt i = Some k \<and> p k = None \<longrightarrow>
        dispatch rt p msg = (Unsolicited msg, p))
   \<and> (\<bar>n\<bar> < 2 ^ 53 \<and> p (show_int n) = Some h
        \<and> get_prop msg ''id'' = Some (JNum (of_int n)) \<longrightarrow>
        dispatch rt p msg = (Resolved (show_int n) h msg, p(show_int n := None)))
   \<and> (get_prop msg ''id'' = Some (JNum x) \<or> get_prop msg ''id'' = Some (JStr s) \<longrightarrow>
        fst (dispatch rt p msg) \<noteq> Failed e)
   \<and> (body req = Some payload
        \<and> (get_prop payload ''id'' = Some (JNum x) \<or> get_prop payload ''id'' = Some (JStr s)) \<longrightarrow>
        Uncaught r e \<notin> set (fst (post_rpc rt req st)))"
proof (intro conjI impI)
  assume "\<bar>n\<bar> < 2 ^ 53"
  then show "js_String rt (JNum (of_int n)) = Some (show_int n)"
    by (simp add: safe_integer_of_int)
  show "js_String rt (JStr (show_int n)) = Some (show_int n)" by simp
next
  assume a: "get_prop msg ''id'' = Some i \<and> i \<noteq> JNull \<and> js_String rt i = Some k \<and> p k = Some h"
  then have "dispatch rt p msg =
      (case p k of None \<Rightarrow> (Unsolicited msg, p) | Some h \<Rightarrow> (Resolved k h msg, p(k := None)))"
    by (intro dispatch_matching [of msg i]) simp_all
  with a show "dispatch rt p msg = (Resolved k h msg, p(k := None))" by simp
next
  assume a: "get_prop msg ''id'' = Some i \<and> i \<noteq> JNull \<and> js_String rt i = Some k \<and> p k = None"
  then have "dispatch rt p msg =
      (case p k of None \<Rightarrow> (Unsolicited msg, p) | Some h \<Rightarrow> (Resolved k h msg, p(k := None)))"
    by (intro dispatch_matching [of msg i]) simp_all
  with a show "dispatch rt p msg = (Unsolicited msg, p)" by simp
next
  assume a: "\<bar>n\<bar> < 2 ^ 53 \<and> p (show_int n) = Some h
        \<and> get_prop msg ''id'' = Some (JNum (of_int n))"
  then have "js_String rt (JNum (of_int n)) = Some (show_int n)"
    by (simp add: safe_integer_of_int)
  with a have "dispatch rt p msg =
      (case p (show_int n) of None \<Rightarrow> (Unsolicited msg, p)
       | Some h \<Rightarrow> (Resolved (show_int n) h msg, p(show_int n := None)))"
    by (intro dispatch_matching [of msg "JNum (of_int n)"]) simp_all
  with a show "dispatch rt p msg = (Resolved (show_int n) h msg, p(show_int n := None))"
    by simp
next
  assume "get_prop msg ''id'' = Some (JNum x) \<or> get_prop msg ''id'' = Some (JStr s)"
  then obtain i k where i: "get_prop msg ''id'' = Some i" "i \<noteq> JNull" "js_String rt i = Some k"
    by auto
  from dispatch_matching [OF i] show "fst (dispatch rt p msg) \<noteq> Failed e"
    by (simp split: option.splits)
next
  assume a: "body req = Some payload
        \<and> (get_prop payload ''id'' = Some (JNum x) \<or> get_prop payload ''id'' = Some (JStr s))"
  then obtain i k where i: "get_prop payload ''id'' = Some i" "i \<noteq> JNull" "js_String rt i = Some k"
    by auto
  with a show "Uncaught r e \<notin> set (fst (post_rpc rt req st))"
    by (auto simp: post_rpc_def Let_def split: option.splits)
qed

theorem id_compared_as_string_witness:
  "dispatch node (pending (snd (run node [PostRpc (rpc_call (JStr ''7'') ''a'')] initial)))
       (rpc_reply (JNum 7)) =
     (Resolved ''7'' 0 (rpc_reply (JNum 7)),
      (pending (snd (run node [PostRpc (rpc_call (JStr ''7'') ''a'')] initial)))(''7'' := None))"
proof -
  let ?p = "pending (snd (run node [PostRpc (rpc_call (JStr ''7'') ''a'')] initial))"
  have h: "\<bar>7 :: int\<bar> < 2 ^ 53 \<and> ?p (show_int 7) = Some 0
      \<and> get_prop (rpc_reply (JNum (of_int 7))) ''id'' = Some (JNum (of_int 7))"
    by (simp add: show_int_7 rpc_reply_id) (simp add: trace_defs)
  from id_compared_as_string [of 7 node "rpc_reply (JNum (of_int 7))" _ _ ?p 0] h
  have "dispatch node ?p (rpc_reply (JNum (of_int 7))) =
          (Resolved (show_int 7) 0 (rpc_reply (JNum (of_int 7))), ?p(show_int 7 := None))"
    by blast
  then show ?thesis by (simp add: show_int_7)
qed

section \<open>No request is answered twice\<close>

lemma responders_append: "responders (es @ es') = responders es @ responders es'"
  by (induction es rule: responders.induct) simp_all

lemma responders_writes: "responders (map StdinWrite ws) = []"
  by (induction ws) simp_all

lemma eligible_same:
  "requests st' = requests st \<Longrightarrow> settled st' = settled st \<Longrightarrow> eligible st' R r = eligible st R r"
  by (simp add: eligible_def)

lemma answers_once_from:
  "requests st' = requests st \<Longrightarrow> settled st' = settled st \<Longrightarrow>
   answers_once st' R res \<Longrightarrow> answers_once st R res"
  by (simp add: answers_once_def eligible_def)

lemma answers_once_nothing: "table_inv st R \<Longrightarrow> answers_once st R ([], st)"
  by (simp add: answers_once_def)

lemma answers_once_seq:
  assumes "answers_once st R (es, st')"
    and "answers_once st' (R \<union> set (responders es)) (es', st'')"
  shows "answers_once st R (es @ es', st'')"
  using assms
  by (auto simp: answers_once_def responders_append Un_assoc)

lemma settle_once:
  assumes "table_inv st R" and "eligible st R r"
  shows "answers_once st R (settle r c b st)"
proof (cases "r \<in> settled st")
  case True
  with assms(1) show ?thesis by (simp add: settle_def answers_once_nothing)
next
  case False
  with assms(2) have "r \<notin> R" "r < requests st" by (auto simp: eligible_def)
  with assms(1) False show ?thesis
    by (auto simp: settle_def answers_once_def table_inv_def eligible_def)
qed

lemma run_all_once:
  assumes "\<And>x st R. x \<in> set xs \<Longrightarrow> table_inv st R \<Longrightarrow>
             (\<forall>r. g x = Some r \<longrightarrow> eligible st R r) \<Longrightarrow> answers_once st R (f x st)"
    and "table_inv st R"
    and "\<forall>x \<in> set xs. \<forall>r. g x = Some r \<longrightarrow> eligible st R r"
  shows "answers_once st R (run_all f xs st)"
  using assms
proof (induction xs arbitrary: st R)
  case Nil
  then show ?case by (simp add: answers_once_nothing)
next
  case (Cons x xs)
  obtain es st' where fx: "f x st = (es, st')" by (cases "f x st")
  have first: "answers_once st R (es, st')"
    using Cons.prems(1) [of x st R] Cons.prems(2,3) fx by simp
  let ?R = "R \<union> set (responders es)"
  from first have inv': "table_inv st' ?R"
    and mono: "\<And>r. eligible st R r \<Longrightarrow> eligible st' ?R r"
    by (simp_all add: answers_once_def)
  have "answers_once st' ?R (run_all f xs st')"
  proof (rule Cons.IH)
    show "table_inv st' ?R" by (rule inv')
    show "\<forall>x \<in> set xs. \<forall>r. g x = Some r \<longrightarrow> eligible st' ?R r"
      using Cons.prems(3) mono by simp
    show "answers_once st2 R2 (f y st2)"
      if "y \<in> set xs" "table_inv st2 R2" "\<forall>r. g y = Some r \<longrightarrow> eligible st2 R2 r"
      for y st2 R2
      using Cons.prems(1) [of y st2 R2] that by simp
  qed
  then have "answers_once st R (es @ fst (run_all f xs st'), snd (run_all f xs st'))"
    using first by (intro answers_once_seq [of st R es st']) simp_all
  with fx show ?case by (simp add: split_beta)
qed

lemma deliver_once:
  assumes "table_inv st R" and "\<forall>r. settles out = Some r \<longrightarrow> eligible st R r"
  shows "answers_once st R (deliver out st)"
proof (cases out)
  case (Resolved k r msg)
  with assms show ?thesis by (simp add: deliver_def settle_once)
next
  case (Unsolicited msg)
  with assms(1) show ?thesis by (simp add: deliver_def answers_once_def)
next
  case (Failed e)
  with assms(1) show ?thesis by (simp add: deliver_def answers_once_def)
qed

lemma table_inv_less:
  assumes "table_inv st R"
    and "requests st' = requests st" and "settled st' = settled st"
    and "\<And>k r. pending st' k = Some r \<Longrightarrow> \<exists>k'. pending st k' = Some r"
    and "set (timers st') \<subseteq> set (timers st)"
  shows "table_inv st' R"
proof -
  have el: "eligible st' R r = eligible st R r" for r
    using assms(2,3) by (rule eligible_same)
  have a: "\<forall>r \<in> R. r < requests st'"
    using assms(1,2) by (simp add: table_inv_def)
  have b: "eligible st' R r" if "pending st' k = Some r" for k r
  proof -
    from assms(4) [OF that] obtain k' where "pending st k' = Some r" ..
    with assms(1) have "eligible st R r" by (simp add: table_inv_def)
    then show ?thesis by (simp add: el)
  qed
  have c: "eligible st' R (fst (snd t))" if "t \<in> set (timers st')" for t
  proof -
    from that assms(5) have "t \<in> set (timers st)" by blast
    with assms(1) have "eligible st R (fst (snd t))" by (simp add: table_inv_def)
    then show ?thesis by (simp add: el)
  qed
  from a b c show ?thesis unfolding table_inv_def by blast
qed

lemma fire_once:
  assumes "table_inv st R" and "eligible st R (fst (snd t))"
  shows "answers_once st R (fire t st)"
proof -
  obtain d r k where t: "t = (d, r, k)" by (cases t)
  let ?st = "st\<lparr>pending := (pending st)(k := None)\<rparr>"
  have inv: "table_inv ?st R"
  proof (rule table_inv_less [OF assms(1)])
    fix k' r'
    assume "pending ?st k' = Some r'"
    then have "pending st k' = Some r'" by (simp split: if_splits)
    then show "\<exists>k''. pending st k'' = Some r'" ..
  qed simp_all
  have "eligible ?st R r" using assms(2) t by (simp add: eligible_def)
  with inv have "answers_once ?st R (settle r 504 timeout_body ?st)"
    by (rule settle_once)
  then have "answers_once st R (settle r 504 timeout_body ?st)"
    by (rule answers_once_from [rotated 2]) simp_all
  with assms(1) t show ?thesis
    by (simp add: fire_def answers_once_nothing)
qed

lemma dispatch_sub:
  "(\<forall>r. settles (fst (dispatch rt p msg)) = Some r \<longrightarrow> (\<exists>k. p k = Some r))
   \<and> (\<forall>k r. snd (dispatch rt p msg) k = Some r \<longrightarrow> p k = Some r)"
  by (auto simp: dispatch_def split: option.splits if_splits)

lemma handle_frame_sub:
  "(\<forall>r. settles (fst (handle_frame rt p b)) = Some r \<longrightarrow> (\<exists>k. p k = Some r))
   \<and> (\<forall>k r. snd (handle_frame rt p b) k = Some r \<longrightarrow> p k = Some r)"
  using dispatch_sub by (simp add: handle_frame_def split: option.splits)

lemma tryParse_sub:
  "(\<forall>out \<in> set (fst (tryParseMessages rt buf p)).
      \<forall>r. settles out = Some r \<longrightarrow> (\<exists>k. p k = Some r))
   \<and> (\<forall>k r. snd (snd (tryParseMessages rt buf p)) k = Some r \<longrightarrow> p k = Some r)"
proof (induction "length buf" arbitrary: buf p rule: less_induct)
  case less
  show ?case
  proof (cases "indexOf buf sep")
    case None
    then show ?thesis by (simp add: tryParse_no_sep)
  next
    case (Some idx)
    from indexOf_bound [OF Some] have bound: "idx + 4 \<le> length buf"
      by (simp add: length_sep)
    show ?thesis
    proof (cases "header_match (take idx buf)")
      case None
      have "length (drop (idx + 4) buf) < length buf" using bound by simp
      from less [OF this, of p] tryParse_skip [OF Some None, of rt p]
      show ?thesis by simp
    next
      case (Some ds)
      note hm = this
      show ?thesis
      proof (cases "length buf < idx + 4 + parseInt10 ds")
        case True
        from tryParse_incomplete [OF \<open>indexOf buf sep = Some idx\<close> hm True, of rt p]
        show ?thesis by simp
      next
        case False
        then have len: "idx + 4 + parseInt10 ds \<le> length buf" by simp
        let ?hf = "handle_frame rt p (take (parseInt10 ds) (drop (idx + 4) buf))"
        let ?rest = "drop (idx + 4 + parseInt10 ds) buf"
        have eq: "tryParseMessages rt buf p =
            (fst ?hf # fst (tryParseMessages rt ?rest (snd ?hf)),
             snd (tryParseMessages rt ?rest (snd ?hf)))"
          by (subst tryParse_complete [OF \<open>indexOf buf sep = Some idx\<close> hm len])
             (simp add: split_beta)
        have "length ?rest < length buf" using bound by simp
        from less [OF this, of "snd ?hf"]
        have ih: "\<forall>out \<in> set (fst (tryParseMessages rt ?rest (snd ?hf))).
                    \<forall>r. settles out = Some r \<longrightarrow> (\<exists>k. snd ?hf k = Some r)"
          "\<forall>k r. snd (snd (tryParseMessages rt ?rest (snd ?hf))) k = Some r \<longrightarrow> snd ?hf k = Some r"
          by simp_all
        from handle_frame_sub [of rt p "take (parseInt10 ds) (drop (idx + 4) buf)"]
        have hf: "\<forall>r. settles (fst ?hf) = Some r \<longrightarrow> (\<exists>k. p k = Some r)"
          "\<forall>k r. snd ?hf k = Some r \<longrightarrow> p k = Some r"
          by simp_all
        from ih hf show ?thesis
          unfolding eq by (simp add: Ball_def) blast
      qed
    qed
  qed
qed

lemma on_data_once:
  assumes "table_inv st R"
  shows "answers_once st R (on_data rt chunk st)"
proof -
  obtain outs buf p' where tp: "tryParseMessages rt (readBuffer st @ chunk) (pending st) = (outs, buf, p')"
    by (cases "tryParseMessages rt (readBuffer st @ chunk) (pending st)")
  from tryParse_sub [of rt "readBuffer st @ chunk" "pending st"] tp
  have outs: "\<And>out r. out \<in> set outs \<Longrightarrow> settles out = Some r \<Longrightarrow> \<exists>k. pending st k = Some r"
    and sub: "\<And>k r. p' k = Some r \<Longrightarrow> pending st k = Some r"
    by auto
  let ?st = "st\<lparr>readBuffer := buf, pending := p'\<rparr>"
  have inv: "table_inv ?st R"
  proof (rule table_inv_less [OF assms])
    fix k r
    assume "pending ?st k = Some r"
    then have "pending st k = Some r" using sub by simp
    then show "\<exists>k'. pending st k' = Some r" ..
  qed simp_all
  have el: "\<forall>out \<in> set outs. \<forall>r. settles out = Some r \<longrightarrow> eligible ?st R r"
  proof (intro ballI allI impI)
    fix out r
    assume "out \<in> set outs" "settles out = Some r"
    from outs [OF this] obtain k where "pending st k = Some r" ..
    with assms have "eligible st R r" by (simp add: table_inv_def)
    then show "eligible ?st R r" by (simp add: eligible_def)
  qed
  have "answers_once ?st R (run_all deliver outs ?st)"
    by (rule run_all_once [where g = settles, OF deliver_once inv el])
  then have "answers_once st R (run_all deliver outs ?st)"
    by (rule answers_once_from [rotated 2]) simp_all
  with tp show ?thesis by (simp add: on_data_def)
qed

lemma elapse_once:
  assumes "table_inv st R"
  shows "answers_once st R (elapse dt st)"
proof -
  let ?now = "clock st + dt"
  let ?due = "filter (\<lambda>t. fst t \<le> ?now) (timers st)"
  let ?st = "st\<lparr>clock := ?now, timers := filter (\<lambda>t. \<not> fst t \<le> ?now) (timers st)\<rparr>"
  have inv: "table_inv ?st R"
  proof (rule table_inv_less [OF assms])
    fix k r
    assume "pending ?st k = Some r"
    then have "pending st k = Some r" by simp
    then show "\<exists>k'. pending st k' = Some r" ..
  qed simp_all
  have el: "\<forall>t \<in> set ?due. \<forall>r. Some (fst (snd t)) = Some r \<longrightarrow> eligible ?st R r"
  proof (intro ballI allI impI)
    fix t r
    assume "t \<in> set ?due" "Some (fst (snd t)) = Some r"
    then have "t \<in> set (timers st)" "r = fst (snd t)" by auto
    with assms have "eligible st R r" by (simp add: table_inv_def)
    then show "eligible ?st R r" by (simp add: eligible_def)
  qed
  have "answers_once ?st R (run_all fire ?due ?st)"
  proof (rule run_all_once [where g = "\<lambda>t. Some (fst (snd t))", OF _ inv el])
    fix t :: "nat \<times> nat \<times> string" and st2 R2
    assume "table_inv st2 R2" "\<forall>r. Some (fst (snd t)) = Some r \<longrightarrow> eligible st2 R2 r"
    then show "answers_once st2 R2 (fire t st2)" by (simp add: fire_once)
  qed
  then have "answers_once st R (run_all fire ?due ?st)"
    by (rule answers_once_from [rotated 2]) simp_all
  then show ?thesis by (simp add: elapse_def Let_def)
qed

lemma immediate_once:
  assumes "table_inv st R"
  shows "answers_once st R ([Response (requests st) c b], st\<lparr>requests := Suc (requests st)\<rparr>)"
  using assms
  by (auto simp: answers_once_def table_inv_def eligible_def less_Suc_eq)

lemma uncaught_once:
  assumes "table_inv st R"
  shows "answers_once st R ([Uncaught r e], st\<lparr>requests := Suc (requests st)\<rparr>)"
  using assms
  by (auto simp: answers_once_def table_inv_def eligible_def less_Suc_eq)

lemma register_once:
  assumes "table_inv st R"
  shows "answers_once st R
           (map StdinWrite ws,
            st\<lparr>requests := Suc (requests st),
               pending := (pending st)(k \<mapsto> requests st),
               timers := timers st @ [(d, requests st, k)]\<rparr>)"
  using assms
  by (auto simp: answers_once_def table_inv_def eligible_def responders_writes less_Suc_eq)

lemma post_rpc_once:
  assumes "table_inv st R"
  shows "answers_once st R (post_rpc rt req st)"
  using immediate_once [OF assms] uncaught_once [OF assms] register_once [OF assms]
  by (simp add: post_rpc_def Let_def split: option.splits)

lemma step_once:
  assumes "table_inv st R"
  shows "answers_once st R (step rt ev st)"
proof (cases "running st")
  case False
  with assms show ?thesis by (simp add: step_def answers_once_nothing)
next
  case True
  show ?thesis
  proof (cases ev)
    case (PostRpc req)
    with True assms show ?thesis by (simp add: step_def post_rpc_once)
  next
    case GetHealth
    with True immediate_once [OF assms] show ?thesis by (simp add: step_def get_health_def)
  next
    case (StdoutData chunk)
    with True assms show ?thesis by (simp add: step_def on_data_once)
  next
    case (StderrData chunk)
    with True assms show ?thesis by (simp add: step_def answers_once_def)
  next
    case (Elapse dt)
    with True assms show ?thesis by (simp add: step_def elapse_once)
  next
    case (McpExit code)
    have "table_inv (st\<lparr>running := False\<rparr>) R"
    proof (rule table_inv_less [OF assms])
      fix k r
      assume "pending (st\<lparr>running := False\<rparr>) k = Some r"
      then have "pending st k = Some r" by simp
      then show "\<exists>k'. pending st k' = Some r" ..
    qed simp_all
    with True McpExit show ?thesis
      by (simp add: step_def on_exit_def answers_once_def eligible_def)
  qed
qed

lemma run_once:
  assumes "table_inv st R"
  shows "answers_once st R (run rt evs st)"
  unfolding run_def
  by (rule run_all_once [where g = "\<lambda>ev. None"]) (simp_all add: step_once assms)

lemma table_inv_initial: "table_inv initial {}"
  by (simp add: table_inv_def initial_def)

lemma run_append:
  "run rt (evs @ evs') st =
     (fst (run rt evs st) @ fst (run rt evs' (snd (run rt evs st))),
      snd (run rt evs' (snd (run rt evs st))))"
  by (induction evs arbitrary: st) (simp_all add: run_Nil run_Cons split_beta)

text \<open>
  Claim C10. In every run of the bridge from its initial state, no request is sent two
  responses: the promise of a registration is settled at most once. In particular a
  request that was answered during a first part of the run (by a reply, by its timeout or
  by an immediate error) is sent nothing in the rest of the run, whatever happens there:
  its timer coming due, a second reply with its id, or a new registration of the id.
\<close>

theorem answered_at_most_once:
  "distinct (responders (fst (run rt evs initial)))
   \<and> (r \<in> set (responders (fst (run rt evs initial))) \<longrightarrow>
        r \<notin> set (responders (fst (run rt evs' (snd (run rt evs initial))))))"
proof -
  have "answers_once initial {} (run rt (evs @ evs') initial)"
    using table_inv_initial by (rule run_once)
  then have "distinct (responders (fst (run rt (evs @ evs') initial)))"
    by (simp add: answers_once_def)
  then show ?thesis
    by (auto simp: run_append responders_append)
qed

theorem answered_at_most_once_witness:
  "distinct (responders (fst (run node reused_id_trace initial)))
   \<and> 0 \<in> set (responders (fst (run node (take 3 reused_id_trace) initial)))
   \<and> 0 \<notin> set (responders (fst (run node (drop 3 reused_id_trace)
                                   (snd (run node (take 3 reused_id_trace) initial)))))"
proof -
  have a: "0 \<in> set (responders (fst (run node (take 3 reused_id_trace) initial)))"
    by (simp add: reused_id_trace_def trace_defs node_roundtrip_reply1 responders_writes
        responders_append)
  from answered_at_most_once [of node "take 3 reused_id_trace" 0 "drop 3 reused_id_trace"] a
  have "0 \<notin> set (responders (fst (run node (drop 3 reused_id_trace)
                                   (snd (run node (take 3 reused_id_trace) initial)))))"
    by blast
  moreover from answered_at_most_once [of node reused_id_trace]
  have "distinct (responders (fst (run node reused_id_trace initial)))" by blast
  ultimately show ?thesis using a by blast
qed

end
